theory Spec2Isabelle
  imports Main "HOL-Library.Word"
begin

unbundle bit_operations_syntax

section \<open>The block array of umm\_malloc.c\<close>

text \<open>
  The heap is an array of 8-byte cells (\<^verbatim>\<open>umm_block\<close>): a header of two
  \<^verbatim>\<open>unsigned short\<close> links and a body that is either two more links (a free
  block) or four data bytes (a used one).  A cell is kept as its four 16-bit words;
  the four data bytes of the body are the two body words, whatever the byte order.
  Local variables of type \<^verbatim>\<open>unsigned short\<close> are 16-bit words, \<^verbatim>\<open>size_t\<close> is the
  32-bit word of the reference target, and an array index (an \<^verbatim>\<open>int\<close> after the
  integer promotions) is a natural number.
\<close>

type_synonym u16 = "16 word"
type_synonym size_t = "32 word"

record umm_block =
  nblock :: u16
  pblock :: u16
  nfree :: u16
  pfree :: u16

type_synonym umm_heap = "nat \<Rightarrow> umm_block"

abbreviation UMM_FREELIST_MASK :: u16 where
  "UMM_FREELIST_MASK \<equiv> 0x8000"

abbreviation UMM_BLOCKNO_MASK :: u16 where
  "UMM_BLOCKNO_MASK \<equiv> 0x7FFF"

definition zero_block :: umm_block where
  "zero_block = \<lparr>nblock = 0, pblock = 0, nfree = 0, pfree = 0\<rparr>"

definition zero_heap :: umm_heap where
  "zero_heap = (\<lambda>b. zero_block)"

abbreviation UMM_NBLOCK :: "umm_heap \<Rightarrow> nat \<Rightarrow> u16" where
  "UMM_NBLOCK h b \<equiv> nblock (h b)"

abbreviation UMM_PBLOCK :: "umm_heap \<Rightarrow> nat \<Rightarrow> u16" where
  "UMM_PBLOCK h b \<equiv> pblock (h b)"

abbreviation UMM_NFREE :: "umm_heap \<Rightarrow> nat \<Rightarrow> u16" where
  "UMM_NFREE h b \<equiv> nfree (h b)"

abbreviation UMM_PFREE :: "umm_heap \<Rightarrow> nat \<Rightarrow> u16" where
  "UMM_PFREE h b \<equiv> pfree (h b)"

text \<open>Assignments through the accessor macros.\<close>

definition set_NBLOCK :: "umm_heap \<Rightarrow> nat \<Rightarrow> u16 \<Rightarrow> umm_heap" where
  "set_NBLOCK h b v = h(b := (h b)\<lparr>nblock := v\<rparr>)"

definition set_PBLOCK :: "umm_heap \<Rightarrow> nat \<Rightarrow> u16 \<Rightarrow> umm_heap" where
  "set_PBLOCK h b v = h(b := (h b)\<lparr>pblock := v\<rparr>)"

definition set_NFREE :: "umm_heap \<Rightarrow> nat \<Rightarrow> u16 \<Rightarrow> umm_heap" where
  "set_NFREE h b v = h(b := (h b)\<lparr>nfree := v\<rparr>)"

definition set_PFREE :: "umm_heap \<Rightarrow> nat \<Rightarrow> u16 \<Rightarrow> umm_heap" where
  "set_PFREE h b v = h(b := (h b)\<lparr>pfree := v\<rparr>)"

text \<open>
  A pointer handed to or returned by the allocator is \<^verbatim>\<open>NULL\<close> or an address inside
  \<^verbatim>\<open>umm_heap\<close>, kept as its byte offset from \<^verbatim>\<open>&umm_heap[0]\<close>:
  \<^verbatim>\<open>&UMM_BLOCK(b)\<close> is offset \<open>8 * b\<close> and \<^verbatim>\<open>&UMM_DATA(b)\<close> is offset \<open>8 * b + 4\<close>
  (the structs are packed: a 4-byte header, a 4-byte body).
\<close>

datatype ptr = Null | Addr nat

definition UMM_BLOCK_addr :: "nat \<Rightarrow> ptr" where
  "UMM_BLOCK_addr b = Addr (8 * b)"

definition UMM_DATA_addr :: "nat \<Rightarrow> ptr" where
  "UMM_DATA_addr b = Addr (8 * b + 4)"

text \<open>The machine address of a pointer, for a heap placed at address \<open>base\<close>.\<close>

fun address_of :: "nat \<Rightarrow> ptr \<Rightarrow> nat" where
  "address_of base Null = 0"
| "address_of base (Addr off) = base + off"

section \<open>umm\_info\<close>

text \<open>
  Modelled from the spec: \<^verbatim>\<open>UMM_HEAP_INFO\<close> is declared in umm\_malloc.h, which is
  not among the sources; the record has the six counters the spec and umm\_info name.
  Their C type is not known, so they are unbounded integers here, and the sums are
  the \<^verbatim>\<open>int\<close> sums the C expressions compute.
\<close>

record UMM_HEAP_INFO =
  totalEntries :: int
  usedEntries :: int
  freeEntries :: int
  totalBlocks :: int
  usedBlocks :: int
  freeBlocks :: int

definition heapInfo_zero :: UMM_HEAP_INFO where
  "heapInfo_zero = \<lparr>totalEntries = 0, usedEntries = 0, freeEntries = 0,
     totalBlocks = 0, usedBlocks = 0, freeBlocks = 0\<rparr>"

text \<open>The size \<^verbatim>\<open>(UMM_NBLOCK(blockNo) & UMM_BLOCKNO_MASK) - blockNo\<close>, an \<^verbatim>\<open>int\<close>.\<close>

definition info_size :: "umm_heap \<Rightarrow> u16 \<Rightarrow> int" where
  "info_size h blockNo =
     int (unat (UMM_NBLOCK h (unat blockNo) AND UMM_BLOCKNO_MASK)) - int (unat blockNo)"

definition count_free :: "umm_heap \<Rightarrow> u16 \<Rightarrow> UMM_HEAP_INFO \<Rightarrow> UMM_HEAP_INFO" where
  "count_free h blockNo hi =
     hi\<lparr>totalEntries := totalEntries hi + 1,
        totalBlocks := totalBlocks hi + info_size h blockNo,
        freeEntries := freeEntries hi + 1,
        freeBlocks := freeBlocks hi + info_size h blockNo\<rparr>"

definition count_used :: "umm_heap \<Rightarrow> u16 \<Rightarrow> UMM_HEAP_INFO \<Rightarrow> UMM_HEAP_INFO" where
  "count_used h blockNo hi =
     hi\<lparr>totalEntries := totalEntries hi + 1,
        totalBlocks := totalBlocks hi + info_size h blockNo,
        usedEntries := usedEntries hi + 1,
        usedBlocks := usedBlocks hi + info_size h blockNo\<rparr>"

text \<open>
  The \<^verbatim>\<open>while\<close> loop of umm\_info.  It returns the counters, the block number it
  stopped at, and whether it left through the \<^verbatim>\<open>return( ptr )\<close> inside the loop.
  On a chain of next links that never reaches a zero link the loop does not end,
  which is the value \<open>None\<close>.
\<close>

partial_function (option) umm_info_loop ::
  "umm_heap \<Rightarrow> ptr \<Rightarrow> u16 \<Rightarrow> UMM_HEAP_INFO \<Rightarrow> (UMM_HEAP_INFO \<times> u16 \<times> bool) option" where
  "umm_info_loop h p blockNo hi =
     (if UMM_NBLOCK h (unat blockNo) AND UMM_BLOCKNO_MASK \<noteq> 0 then
        (if UMM_NBLOCK h (unat blockNo) AND UMM_FREELIST_MASK \<noteq> 0 then
           (if p = UMM_BLOCK_addr (unat blockNo)
            then Some (count_free h blockNo hi, blockNo, True)
            else umm_info_loop h p (UMM_NBLOCK h (unat blockNo) AND UMM_BLOCKNO_MASK)
                   (count_free h blockNo hi))
         else umm_info_loop h p (UMM_NBLOCK h (unat blockNo) AND UMM_BLOCKNO_MASK)
                (count_used h blockNo hi))
      else Some (hi, blockNo, False))"

declare umm_info_loop.simps [code]

text \<open>
  umm\_info: the global \<^verbatim>\<open>heapInfo\<close> it fills and the pointer it returns.  The heap
  is only read; \<open>force\<close> only selects what is logged.
\<close>

definition umm_info :: "u16 \<Rightarrow> umm_heap \<Rightarrow> ptr \<Rightarrow> int \<Rightarrow> (UMM_HEAP_INFO \<times> ptr) option" where
  "umm_info UMM_NUMBLOCKS h p force =
     (case umm_info_loop h p (UMM_NBLOCK h 0 AND UMM_BLOCKNO_MASK) heapInfo_zero of
        None \<Rightarrow> None
      | Some (hi, blockNo, matched) \<Rightarrow>
          if matched then Some (hi, p)
          else Some (hi\<lparr>freeBlocks := freeBlocks hi + (int (unat UMM_NUMBLOCKS) - int (unat blockNo)),
                        totalBlocks := totalBlocks hi + (int (unat UMM_NUMBLOCKS) - int (unat blockNo))\<rparr>,
                     Null))"

section \<open>umm\_blocks\<close>

text \<open>
  \<^verbatim>\<open>sizeof(body)\<close> is 4 and \<^verbatim>\<open>sizeof(umm_block)\<close> is 8.  The sum
  \<^verbatim>\<open>2 + size/8\<close> is computed in \<^verbatim>\<open>size_t\<close> and converted to the
  \<^verbatim>\<open>unsigned short\<close> return type, which keeps its low 16 bits.
\<close>

definition umm_blocks :: "size_t \<Rightarrow> u16" where
  "umm_blocks sz =
     (if sz \<le> 4 then 1 else ucast (2 + (sz - (1 + 4)) div 8))"

section \<open>The structural primitives\<close>

definition umm_make_new_block :: "umm_heap \<Rightarrow> u16 \<Rightarrow> u16 \<Rightarrow> u16 \<Rightarrow> umm_heap" where
  "umm_make_new_block h c blocks freemask =
     (let h1 = set_NBLOCK h (unat c + unat blocks) (UMM_NBLOCK h (unat c) AND UMM_BLOCKNO_MASK);
          h2 = set_PBLOCK h1 (unat c + unat blocks) c;
          h3 = set_PBLOCK h2 (unat (UMM_NBLOCK h2 (unat c) AND UMM_BLOCKNO_MASK)) (c + blocks)
      in set_NBLOCK h3 (unat c) ((c + blocks) OR freemask))"

definition umm_disconnect_from_free_list :: "umm_heap \<Rightarrow> u16 \<Rightarrow> umm_heap" where
  "umm_disconnect_from_free_list h c =
     (let h1 = set_NFREE h (unat (UMM_PFREE h (unat c))) (UMM_NFREE h (unat c));
          h2 = set_PFREE h1 (unat (UMM_NFREE h1 (unat c))) (UMM_PFREE h1 (unat c))
      in set_NBLOCK h2 (unat c) (UMM_NBLOCK h2 (unat c) AND NOT UMM_FREELIST_MASK))"

definition umm_assimilate_up :: "umm_heap \<Rightarrow> u16 \<Rightarrow> umm_heap" where
  "umm_assimilate_up h c =
     (if UMM_NBLOCK h (unat (UMM_NBLOCK h (unat c))) AND UMM_FREELIST_MASK \<noteq> 0 then
        (let h1 = umm_disconnect_from_free_list h (UMM_NBLOCK h (unat c));
             h2 = set_PBLOCK h1
                    (unat (UMM_NBLOCK h1 (unat (UMM_NBLOCK h1 (unat c))) AND UMM_BLOCKNO_MASK)) c
         in set_NBLOCK h2 (unat c)
              (UMM_NBLOCK h2 (unat (UMM_NBLOCK h2 (unat c))) AND UMM_BLOCKNO_MASK))
      else h)"

text \<open>umm\_assimilate\_down returns the block number of the merged block.\<close>

definition umm_assimilate_down :: "umm_heap \<Rightarrow> u16 \<Rightarrow> u16 \<Rightarrow> umm_heap \<times> u16" where
  "umm_assimilate_down h c freemask =
     (let h1 = set_NBLOCK h (unat (UMM_PBLOCK h (unat c))) (UMM_NBLOCK h (unat c) OR freemask);
          h2 = set_PBLOCK h1 (unat (UMM_NBLOCK h1 (unat c))) (UMM_PBLOCK h1 (unat c))
      in (h2, UMM_PBLOCK h2 (unat c)))"

section \<open>umm\_free\<close>

text \<open>
  The block number is \<^verbatim>\<open>(ptr - &umm_heap[0]) / sizeof(umm_block)\<close>, stored in an
  \<^verbatim>\<open>unsigned short\<close>.
\<close>

definition block_of_ptr :: "nat \<Rightarrow> u16" where
  "block_of_ptr off = of_nat (off div 8)"

text \<open>
  The \<^verbatim>\<open>else\<close> branch of umm\_free: the five assignments that put block \<open>c\<close> at
  the head of the free list and set its free flag.
\<close>

definition umm_free_insert :: "umm_heap \<Rightarrow> u16 \<Rightarrow> umm_heap" where
  "umm_free_insert h c =
     (let h1 = set_PFREE h (unat (UMM_NFREE h 0)) c;
          h2 = set_NFREE h1 (unat c) (UMM_NFREE h1 0);
          h3 = set_PFREE h2 (unat c) 0;
          h4 = set_NFREE h3 0 c
      in set_NBLOCK h4 (unat c) (UMM_NBLOCK h4 (unat c) OR UMM_FREELIST_MASK))"

definition umm_free :: "umm_heap \<Rightarrow> ptr \<Rightarrow> umm_heap" where
  "umm_free h p =
     (case p of
        Null \<Rightarrow> h
      | Addr off \<Rightarrow>
          (let c = block_of_ptr off;
               h1 = umm_assimilate_up h c
           in if UMM_NBLOCK h1 (unat (UMM_PBLOCK h1 (unat c))) AND UMM_FREELIST_MASK \<noteq> 0
              then fst (umm_assimilate_down h1 c UMM_FREELIST_MASK)
              else umm_free_insert h1 c))"

section \<open>umm\_malloc\<close>

text \<open>
  The best-fit scan of the free list (\<^verbatim>\<open>UMM_BEST_FIT\<close> is the default).  The loop
  state is \<open>cf\<close>, \<open>blockSize\<close>, \<open>bestBlock\<close> and \<open>bestSize\<close>; a free list whose next
  links never reach zero keeps the loop running, which is the value \<open>None\<close>.
\<close>

partial_function (option) umm_malloc_scan ::
  "umm_heap \<Rightarrow> u16 \<Rightarrow> u16 \<Rightarrow> u16 \<Rightarrow> u16 \<Rightarrow> u16 \<Rightarrow> (u16 \<times> u16 \<times> u16 \<times> u16) option" where
  "umm_malloc_scan h blocks cf blockSize bestBlock bestSize =
     (if UMM_NFREE h (unat cf) \<noteq> 0 then
        (let blockSize' = (UMM_NBLOCK h (unat cf) AND UMM_BLOCKNO_MASK) - cf
         in if blocks \<le> blockSize' \<and> blockSize' < bestSize
            then umm_malloc_scan h blocks (UMM_NFREE h (unat cf)) blockSize' cf blockSize'
            else umm_malloc_scan h blocks (UMM_NFREE h (unat cf)) blockSize' bestBlock bestSize)
      else Some (cf, blockSize, bestBlock, bestSize))"

declare umm_malloc_scan.simps [code]

text \<open>
  The search of umm\_malloc up to and including the test of \<open>bestSize\<close> against
  0x7FFF: the block \<open>cf\<close> the allocation continues with, and \<open>blockSize\<close>.
\<close>

definition umm_malloc_search :: "umm_heap \<Rightarrow> u16 \<Rightarrow> (u16 \<times> u16) option" where
  "umm_malloc_search h blocks =
     (case umm_malloc_scan h blocks (UMM_NFREE h 0) 0 (UMM_NFREE h 0) 0x7FFF of
        None \<Rightarrow> None
      | Some (cf, blockSize, bestBlock, bestSize) \<Rightarrow>
          if bestSize \<noteq> 0x7FFF then Some (bestBlock, bestSize) else Some (cf, blockSize))"

text \<open>
  The allocation once \<open>cf\<close> and \<open>blockSize\<close> are chosen.  umm\_malloc\_end is the
  branch taken when \<open>cf\<close> has a zero next link ("we're at the end of the heap").
\<close>

definition umm_malloc_end :: "u16 \<Rightarrow> umm_heap \<Rightarrow> u16 \<Rightarrow> u16 \<Rightarrow> umm_heap \<times> ptr" where
  "umm_malloc_end UMM_NUMBLOCKS h blocks cf =
     (if unat UMM_NUMBLOCKS \<le> unat cf + unat blocks + 1 then (h, Null)
      else
        (let h0 = (if cf = 0 then set_NFREE (set_NBLOCK h 0 1) 0 1 else h);
             cf = (if cf = 0 then 1 else cf);
             h1 = set_NFREE h0 (unat (UMM_PFREE h0 (unat cf))) (cf + blocks);
             h2 = h1(unat cf + unat blocks := h1 (unat cf));
             h3 = set_NBLOCK h2 (unat cf) (cf + blocks);
             h4 = set_PBLOCK h3 (unat cf + unat blocks) cf
         in (h4, UMM_DATA_addr (unat cf))))"

definition umm_malloc_take :: "u16 \<Rightarrow> umm_heap \<Rightarrow> u16 \<Rightarrow> u16 \<Rightarrow> u16 \<Rightarrow> umm_heap \<times> ptr" where
  "umm_malloc_take UMM_NUMBLOCKS h blocks cf blockSize =
     (if UMM_NBLOCK h (unat cf) AND UMM_BLOCKNO_MASK \<noteq> 0 then
        (if blockSize = blocks
         then (umm_disconnect_from_free_list h cf, UMM_DATA_addr (unat cf))
         else (umm_make_new_block h cf (blockSize - blocks) UMM_FREELIST_MASK,
               UMM_DATA_addr (unat (cf + (blockSize - blocks)))))
      else umm_malloc_end UMM_NUMBLOCKS h blocks cf)"

definition umm_malloc :: "u16 \<Rightarrow> umm_heap \<Rightarrow> size_t \<Rightarrow> (umm_heap \<times> ptr) option" where
  "umm_malloc UMM_NUMBLOCKS h sz =
     (if sz = 0 then Some (h, Null)
      else
        (case umm_malloc_search h (umm_blocks sz) of
           None \<Rightarrow> None
         | Some (cf, blockSize) \<Rightarrow>
             Some (umm_malloc_take UMM_NUMBLOCKS h (umm_blocks sz) cf blockSize)))"

section \<open>umm\_realloc\<close>

text \<open>
  \<^verbatim>\<open>memmove\<close> and \<^verbatim>\<open>memcpy\<close> as umm\_realloc calls them: \<open>curSize\<close> bytes from the
  body of cell \<open>src\<close> to the body of cell \<open>dst\<close>.  \<open>curSize\<close> is 4 bytes short of a
  whole number \<open>k\<close> of cells, so the copy takes the two body words of the first cell
  and the \<open>k - 1\<close> whole cells after it.  All source cells are read before any is
  written, as \<^verbatim>\<open>memmove\<close> promises for overlapping areas.
\<close>

definition copy_data :: "umm_heap \<Rightarrow> nat \<Rightarrow> nat \<Rightarrow> size_t \<Rightarrow> umm_heap" where
  "copy_data h dst src curSize =
     (\<lambda>i. if i = dst then (h dst)\<lparr>nfree := nfree (h src), pfree := pfree (h src)\<rparr>
          else if dst < i \<and> i < dst + (unat curSize + 4) div 8 then h (src + (i - dst))
          else h i)"

text \<open>
  The first half of umm\_realloc after the same-size test: assimilate up, then
  assimilate down and move the data when the previous block is free and the merged
  block is large enough.  It returns the heap, the block \<open>c\<close> and the pointer.
  The test \<^verbatim>\<open>blocks <= (UMM_NBLOCK(c)-UMM_PBLOCK(c))\<close> compares \<^verbatim>\<open>int\<close>s.
\<close>

definition umm_realloc_assimilate ::
  "umm_heap \<Rightarrow> u16 \<Rightarrow> u16 \<Rightarrow> size_t \<Rightarrow> ptr \<Rightarrow> umm_heap \<times> u16 \<times> ptr" where
  "umm_realloc_assimilate h c blocks curSize p =
     (let h1 = umm_assimilate_up h c
      in if UMM_NBLOCK h1 (unat (UMM_PBLOCK h1 (unat c))) AND UMM_FREELIST_MASK \<noteq> 0 \<and>
            int (unat blocks) \<le> int (unat (UMM_NBLOCK h1 (unat c))) - int (unat (UMM_PBLOCK h1 (unat c)))
         then
           (let h2 = umm_disconnect_from_free_list h1 (UMM_PBLOCK h1 (unat c));
                (h3, c') = umm_assimilate_down h2 c 0;
                h4 = copy_data h3 (unat c') (unat c) curSize
            in (h4, c', UMM_DATA_addr (unat c')))
         else (h1, c, p))"

definition umm_realloc :: "u16 \<Rightarrow> umm_heap \<Rightarrow> ptr \<Rightarrow> size_t \<Rightarrow> (umm_heap \<times> ptr) option" where
  "umm_realloc UMM_NUMBLOCKS h p sz =
     (case p of
        Null \<Rightarrow> umm_malloc UMM_NUMBLOCKS h sz
      | Addr off \<Rightarrow>
          if sz = 0 then Some (umm_free h p, Null)
          else
            (let blocks = umm_blocks sz;
                 c = block_of_ptr off;
                 blockSize = UMM_NBLOCK h (unat c) - c;
                 curSize = ucast blockSize * 8 - 4
             in if blockSize = blocks then Some (h, p)
                else
                  (let (h1, c1, p1) = umm_realloc_assimilate h c blocks curSize p;
                       blockSize1 = UMM_NBLOCK h1 (unat c1) - c1
                   in if blockSize1 = blocks then Some (h1, p1)
                      else if blocks < blockSize1
                      then Some (umm_free (umm_make_new_block h1 c1 blocks 0)
                                   (UMM_DATA_addr (unat c1 + unat blocks)), p1)
                      else
                        (case umm_malloc UMM_NUMBLOCKS h1 sz of
                           None \<Rightarrow> None
                         | Some (h2, Null) \<Rightarrow> Some (h2, Null)
                         | Some (h2, Addr new) \<Rightarrow>
                             Some (umm_free (copy_data h2 (unat (block_of_ptr new)) (unat c1) curSize) p1,
                                   Addr new)))))"

section \<open>The public operations as one step function\<close>

datatype umm_call = Malloc size_t | Free ptr | Realloc ptr size_t

definition umm_step :: "u16 \<Rightarrow> umm_heap \<Rightarrow> umm_call \<Rightarrow> (umm_heap \<times> ptr) option" where
  "umm_step UMM_NUMBLOCKS h call =
     (case call of
        Malloc sz \<Rightarrow> umm_malloc UMM_NUMBLOCKS h sz
      | Free p \<Rightarrow> Some (umm_free h p, Null)
      | Realloc p sz \<Rightarrow> umm_realloc UMM_NUMBLOCKS h p sz)"

section \<open>Notions the properties are stated with\<close>

subsection \<open>The walk of umm\_info\<close>

text \<open>
  \<open>info_walk h b xs\<close>: the blocks \<open>xs\<close> are the ones the loop of umm\_info visits
  first when it starts at block \<open>b\<close>, each with a non-zero next link.
  \<open>info_count h xs hi\<close> adds the entries for exactly the blocks \<open>xs\<close> to \<open>hi\<close>.
\<close>

fun info_walk :: "umm_heap \<Rightarrow> u16 \<Rightarrow> u16 list \<Rightarrow> bool" where
  "info_walk h b [] = True"
| "info_walk h b (x # xs) =
     (x = b \<and> UMM_NBLOCK h (unat x) AND UMM_BLOCKNO_MASK \<noteq> 0 \<and>
      info_walk h (UMM_NBLOCK h (unat x) AND UMM_BLOCKNO_MASK) xs)"

fun info_count :: "umm_heap \<Rightarrow> u16 list \<Rightarrow> UMM_HEAP_INFO \<Rightarrow> UMM_HEAP_INFO" where
  "info_count h [] hi = hi"
| "info_count h (x # xs) hi =
     info_count h xs
       (if UMM_NBLOCK h (unat x) AND UMM_FREELIST_MASK \<noteq> 0
        then count_free h x hi else count_used h x hi)"

subsection \<open>Well-formed heaps\<close>

text \<open>
  The block number and the free flag held in the next link of block \<open>b\<close>.
\<close>

definition blockno :: "umm_heap \<Rightarrow> nat \<Rightarrow> nat" where
  "blockno h b = unat (UMM_NBLOCK h b AND UMM_BLOCKNO_MASK)"

definition is_free :: "umm_heap \<Rightarrow> nat \<Rightarrow> bool" where
  "is_free h b = (UMM_NBLOCK h b AND UMM_FREELIST_MASK \<noteq> 0)"

text \<open>
  \<open>plink h p b\<close>: block \<open>b\<close> is the physical successor of block \<open>p\<close>, at a higher
  index, linked in both directions, and the two are not both free.
  \<open>flink h p f\<close>: block \<open>f\<close> follows \<open>p\<close> in the free list, linked in both directions.
\<close>

definition plink :: "umm_heap \<Rightarrow> nat \<Rightarrow> nat \<Rightarrow> bool" where
  "plink h p b =
     (p < b \<and> blockno h p = b \<and> unat (UMM_PBLOCK h b) = p \<and> \<not> (is_free h p \<and> is_free h b))"

definition flink :: "umm_heap \<Rightarrow> nat \<Rightarrow> nat \<Rightarrow> bool" where
  "flink h p f = (unat (UMM_NFREE h p) = f \<and> unat (UMM_PFREE h f) = p)"

text \<open>
  \<open>umm_heap_ok N h bs fl lf\<close>: an initialised heap of \<open>N\<close> cells.  \<open>lf\<close> is the
  last block, the one whose next link is 0 and that nothing lies behind; it
  carries no free flag and ends the free list.  \<open>bs\<close> lists the first cells of the
  logical blocks before it, in physical order: the chain of next links from cell 0
  runs through exactly \<open>bs\<close> and then \<open>lf\<close>.  \<open>fl\<close> lists the free list before
  \<open>lf\<close>, in order: the chain of free links from cell 0 runs through exactly \<open>fl\<close>
  and then \<open>lf\<close>.  The entries of \<open>fl\<close> are exactly the blocks of \<open>bs\<close> that carry
  the free flag.
\<close>

definition umm_heap_ok :: "u16 \<Rightarrow> umm_heap \<Rightarrow> nat list \<Rightarrow> nat list \<Rightarrow> nat \<Rightarrow> bool" where
  "umm_heap_ok UMM_NUMBLOCKS h bs fl lf =
     (unat UMM_NUMBLOCKS \<le> 32767 \<and> lf < unat UMM_NUMBLOCKS \<and>
      UMM_NBLOCK h 0 = 1 \<and>
      successively (plink h) (0 # bs @ [lf]) \<and> UMM_NBLOCK h lf = 0 \<and>
      successively (flink h) (0 # fl @ [lf]) \<and> UMM_NFREE h lf = 0 \<and>
      distinct fl \<and>
      list_all (\<lambda>f. f \<in> set bs \<and> is_free h f) fl \<and>
      list_all (\<lambda>b. is_free h b \<longrightarrow> b \<in> set fl) bs)"

text \<open>
  A heap is fresh when cells 0 and 1 are still zero, as the runtime start-up leaves
  them: umm\_malloc has not initialised the free list yet.  A state between public
  operations is a fresh heap (written with \<open>lf = 0\<close> and no blocks) or an
  initialised one.
\<close>

definition umm_heap_fresh :: "umm_heap \<Rightarrow> bool" where
  "umm_heap_fresh h = (h 0 = zero_block \<and> h 1 = zero_block)"

definition umm_state_ok :: "u16 \<Rightarrow> umm_heap \<Rightarrow> nat list \<Rightarrow> nat list \<Rightarrow> nat \<Rightarrow> bool" where
  "umm_state_ok UMM_NUMBLOCKS h bs fl lf =
     (if lf = 0 then bs = [] \<and> fl = [] \<and> unat UMM_NUMBLOCKS \<le> 32767 \<and> umm_heap_fresh h
      else umm_heap_ok UMM_NUMBLOCKS h bs fl lf)"

text \<open>
  The used blocks are the blocks of \<open>bs\<close> that carry no free flag.  A pointer the
  caller may pass to umm\_free and umm\_realloc is \<^verbatim>\<open>NULL\<close> or the data address of
  a used block.
\<close>

definition used_block :: "umm_heap \<Rightarrow> nat list \<Rightarrow> nat \<Rightarrow> bool" where
  "used_block h bs c = (c \<in> set bs \<and> \<not> is_free h c)"

definition ptr_ok :: "umm_heap \<Rightarrow> nat list \<Rightarrow> ptr \<Rightarrow> bool" where
  "ptr_ok h bs p = (p = Null \<or> list_ex (\<lambda>c. used_block h bs c \<and> p = UMM_DATA_addr c) bs)"

text \<open>
  The calls the invariant is proved for.  A request whose block count umm\_blocks
  returns as 0 (the count is a multiple of \<open>2^16\<close>, from 524277 bytes on) is left
  out.
\<close>

definition call_ok :: "umm_heap \<Rightarrow> nat list \<Rightarrow> umm_call \<Rightarrow> bool" where
  "call_ok h bs call =
     (case call of
        Malloc sz \<Rightarrow> umm_blocks sz \<noteq> 0
      | Free p \<Rightarrow> ptr_ok h bs p
      | Realloc p sz \<Rightarrow> ptr_ok h bs p \<and> umm_blocks sz \<noteq> 0)"

text \<open>No two physically adjacent blocks of \<open>bs\<close> both carry the free flag.\<close>

definition no_adjacent_free :: "umm_heap \<Rightarrow> nat list \<Rightarrow> bool" where
  "no_adjacent_free h bs = successively (\<lambda>b b'. \<not> (is_free h b \<and> is_free h b')) bs"

subsection \<open>Best fit\<close>

text \<open>
  The span of block \<open>b\<close>, in cells.  \<open>best_fit_choice h b fl f\<close>: among the blocks
  of the list \<open>fl\<close>, \<open>f\<close> is the best fit for a request of \<open>b\<close> blocks: its span
  is at least \<open>b\<close>, no block of \<open>fl\<close> with a span of at least \<open>b\<close> has a smaller
  span, and the ones listed before \<open>f\<close> have a strictly larger span.
\<close>

definition span :: "umm_heap \<Rightarrow> nat \<Rightarrow> nat" where
  "span h b = blockno h b - b"

definition best_fit_choice :: "umm_heap \<Rightarrow> nat \<Rightarrow> nat list \<Rightarrow> nat \<Rightarrow> bool" where
  "best_fit_choice h b fl f =
     (f \<in> set fl \<and> b \<le> span h f \<and>
      list_all (\<lambda>g. b \<le> span h g \<longrightarrow> span h f \<le> span h g) fl \<and>
      list_all (\<lambda>g. b \<le> span h g \<longrightarrow> span h f < span h g) (takeWhile (\<lambda>g. g \<noteq> f) fl))"

text \<open>
  The scan as a fold over the free list: the pair \<open>(bestBlock, bestSize)\<close> after
  the blocks \<open>fl\<close> have been looked at.
\<close>

fun best_fit_fold :: "umm_heap \<Rightarrow> nat \<Rightarrow> nat list \<Rightarrow> nat \<times> nat \<Rightarrow> nat \<times> nat" where
  "best_fit_fold h b [] best = best"
| "best_fit_fold h b (f # fs) best =
     best_fit_fold h b fs
       (if b \<le> span h f \<and> span h f < snd best then (f, span h f) else best)"

subsection \<open>A sample heap\<close>

text \<open>
  The heap of 16 cells reached from the zero heap by \<^verbatim>\<open>a = umm_malloc(9)\<close>, three
  times \<^verbatim>\<open>umm_malloc(1)\<close> (\<^verbatim>\<open>b\<close>, \<^verbatim>\<open>c\<close>, \<^verbatim>\<open>d\<close>), \<^verbatim>\<open>umm_free(a)\<close> and
  \<^verbatim>\<open>umm_free(c)\<close>: block 1 (two cells) and block 4 (one cell) are free, blocks 3 and
  5 are used, block 6 is the last block, and the free list is 4, 1, 6.
\<close>

definition mk_block :: "u16 \<Rightarrow> u16 \<Rightarrow> u16 \<Rightarrow> u16 \<Rightarrow> umm_block" where
  "mk_block n p nf pf = \<lparr>nblock = n, pblock = p, nfree = nf, pfree = pf\<rparr>"

definition sample_heap :: umm_heap where
  "sample_heap =
     zero_heap(0 := mk_block 1 0 4 0,
               1 := mk_block 0x8003 0 6 4,
               3 := mk_block 4 1 0 0,
               4 := mk_block 0x8005 3 1 0,
               5 := mk_block 6 4 0 0,
               6 := mk_block 0 5 0 1)"

section \<open>umm\_blocks: the block count\<close>

lemma umm_blocks_small: "sz \<le> 4 \<Longrightarrow> umm_blocks sz = 1"
  by (simp add: umm_blocks_def)

lemma umm_blocks_unat:
  assumes "4 < sz"
  shows "unat (umm_blocks sz) = (2 + (unat sz - 5) div 8) mod 65536"
proof -
  from assms have le: "5 \<le> sz"
    by (simp add: word_less_nat_alt word_le_nat_alt)
  have s: "unat (sz - 5) = unat sz - 5"
    using le by (simp add: unat_sub)
  have "unat sz < 2 ^ 32"
    using unsigned_less [of sz] by simp
  then have b: "2 + (unat sz - 5) div 8 < 4294967296"
    by simp
  have "unat (2 + (sz - 5) div 8) = (2 + unat ((sz - 5) div 8)) mod 4294967296"
    by (simp add: unat_word_ariths(1))
  also have "\<dots> = 2 + (unat sz - 5) div 8"
    using b by (simp add: unat_div s)
  finally have c: "unat (2 + (sz - 5) div 8) = 2 + (unat sz - 5) div 8" .
  have "\<not> sz \<le> 4"
    using assms by (simp add: not_le)
  then have "umm_blocks sz = ucast (2 + (sz - 5) div 8)"
    by (simp add: umm_blocks_def)
  then show ?thesis
    by (simp add: unsigned_ucast_eq take_bit_eq_mod c)
qed

text \<open>
  C5.  For a request of 524293 bytes the claim's count is
  \<open>ceil ((524293 - 4) / 8) + 1 = 65538\<close> blocks; umm\_blocks returns 2, because the
  count does not fit the \<^verbatim>\<open>unsigned short\<close> it is returned in.
\<close>

theorem umm_blocks_524293:
  "umm_blocks 524293 = 2 \<and> (524293 - 4 + 7) div 8 + 1 = (65538 :: nat)"
  by (simp add: umm_blocks_def)

text \<open>
  Where the count fits 16 bits (requests up to 524276 bytes) umm\_blocks returns
  what the claim says: 1 up to the four body bytes, and above them
  \<open>ceil ((size - 4) / 8) + 1\<close>, which is \<open>2 + (size - 1 - 4) div 8\<close>.
\<close>

lemma ceil_blocks:
  assumes "4 < (n :: nat)"
  shows "(n - 4 + 7) div 8 + 1 = 2 + (n - 1 - 4) div 8"
proof -
  have "n - 4 + 7 = (n - 1 - 4) + 8"
    using assms by simp
  then have "(n - 4 + 7) div 8 = (n - 1 - 4) div 8 + 1"
    by simp
  then show ?thesis
    by simp
qed

lemma umm_blocks_in_range:
  assumes "unat sz \<le> 524276"
  shows "unat (umm_blocks sz) =
           (if unat sz \<le> 4 then 1 else (unat sz - 4 + 7) div 8 + 1)"
proof (cases "sz \<le> 4")
  case True
  then show ?thesis
    by (simp add: umm_blocks_small word_le_nat_alt)
next
  case False
  then have gt: "4 < sz"
    by (simp add: not_le)
  then have gt': "4 < unat sz"
    by (simp add: word_less_nat_alt)
  have "unat sz - 5 \<le> 524271"
    using assms by simp
  then have "(unat sz - 5) div 8 \<le> 524271 div 8"
    by (rule div_le_mono)
  then have "2 + (unat sz - 5) div 8 < 65536"
    by simp
  then have "unat (umm_blocks sz) = 2 + (unat sz - 5) div 8"
    using umm_blocks_unat [OF gt] by simp
  then show ?thesis
    using gt' ceil_blocks [OF gt'] by simp
qed

section \<open>Reading and writing cells\<close>

lemma set_sel [simp]:
  "nblock (set_NBLOCK h b v x) = (if x = b then v else nblock (h x))"
  "pblock (set_NBLOCK h b v x) = pblock (h x)"
  "nfree (set_NBLOCK h b v x) = nfree (h x)"
  "pfree (set_NBLOCK h b v x) = pfree (h x)"
  "nblock (set_PBLOCK h b v x) = nblock (h x)"
  "pblock (set_PBLOCK h b v x) = (if x = b then v else pblock (h x))"
  "nfree (set_PBLOCK h b v x) = nfree (h x)"
  "pfree (set_PBLOCK h b v x) = pfree (h x)"
  "nblock (set_NFREE h b v x) = nblock (h x)"
  "pblock (set_NFREE h b v x) = pblock (h x)"
  "nfree (set_NFREE h b v x) = (if x = b then v else nfree (h x))"
  "pfree (set_NFREE h b v x) = pfree (h x)"
  "nblock (set_PFREE h b v x) = nblock (h x)"
  "pblock (set_PFREE h b v x) = pblock (h x)"
  "nfree (set_PFREE h b v x) = nfree (h x)"
  "pfree (set_PFREE h b v x) = (if x = b then v else pfree (h x))"
  by (simp_all add: set_NBLOCK_def set_PBLOCK_def set_NFREE_def set_PFREE_def)

lemma zero_heap_sel [simp]:
  "nblock (zero_heap b) = 0" "pblock (zero_heap b) = 0"
  "nfree (zero_heap b) = 0" "pfree (zero_heap b) = 0"
  by (simp_all add: zero_heap_def zero_block_def)

lemma mk_block_sel [simp]:
  "nblock (mk_block n p nf pf) = n" "pblock (mk_block n p nf pf) = p"
  "nfree (mk_block n p nf pf) = nf" "pfree (mk_block n p nf pf) = pf"
  by (simp_all add: mk_block_def)

lemma UMM_BLOCK_addr_eq [simp]:
  "UMM_BLOCK_addr (unat (x::u16)) = UMM_BLOCK_addr (unat y) \<longleftrightarrow> x = y"
  by (simp add: UMM_BLOCK_addr_def word_unat_eq_iff)

section \<open>umm\_info\<close>



lemma umm_info_loop_match:
  "info_walk h b (pre @ [x]) \<Longrightarrow> x \<notin> set pre \<Longrightarrow>
   UMM_NBLOCK h (unat x) AND UMM_FREELIST_MASK \<noteq> 0 \<Longrightarrow>
   umm_info_loop h (UMM_BLOCK_addr (unat x)) b hi = Some (info_count h (pre @ [x]) hi, x, True)"
proof (induction pre arbitrary: b hi)
  case Nil
  then show ?case
    by (subst umm_info_loop.simps) auto
next
  case (Cons y pre)
  from Cons.prems have yb: "y = b"
    and nz: "UMM_NBLOCK h (unat y) AND UMM_BLOCKNO_MASK \<noteq> 0"
    and w: "info_walk h (UMM_NBLOCK h (unat y) AND UMM_BLOCKNO_MASK) (pre @ [x])"
    and ne: "x \<noteq> y" and ni: "x \<notin> set pre"
    by auto
  note ih = Cons.IH [OF w ni Cons.prems(3)]
  show ?case
    by (subst umm_info_loop.simps) (use yb nz ne ih in simp)
qed

lemma info_count_totalBlocks:
  "totalBlocks (info_count h xs hi) = totalBlocks hi + sum_list (map (info_size h) xs)"
  by (induction xs arbitrary: hi) (simp_all add: count_free_def count_used_def)

text \<open>
  C9.  When the pointer is the header address of a free block \<open>b\<close> that the walk
  reaches (after the blocks \<open>pre\<close>, none of which is \<open>b\<close>), umm\_info returns the
  pointer from inside the loop, and the record holds the entries of the blocks
  \<open>pre\<close> and \<open>b\<close> only: nothing after \<open>b\<close> is counted, and the closing sum over
  the rest of the heap (\<open>UMM_NUMBLOCKS - blockNo\<close>) is not added, so the record
  does not depend on \<open>UMM_NUMBLOCKS\<close> at all.
\<close>

theorem umm_info_early_return:
  assumes "info_walk h (UMM_NBLOCK h 0 AND UMM_BLOCKNO_MASK) (pre @ [b])"
    and "b \<notin> set pre"
    and "UMM_NBLOCK h (unat b) AND UMM_FREELIST_MASK \<noteq> 0"
  shows "umm_info UMM_NUMBLOCKS h (UMM_BLOCK_addr (unat b)) force =
           Some (info_count h (pre @ [b]) heapInfo_zero, UMM_BLOCK_addr (unat b)) \<and>
         totalBlocks (info_count h (pre @ [b]) heapInfo_zero) =
           sum_list (map (info_size h) (pre @ [b]))"
  using umm_info_loop_match [OF assms, of heapInfo_zero]
  by (simp add: umm_info_def info_count_totalBlocks) (simp add: heapInfo_zero_def)

lemma sample_heap_sel [simp]:
  "sample_heap 0 = mk_block 1 0 4 0"
  "sample_heap (Suc 0) = mk_block 0x8003 0 6 4"
  "sample_heap 3 = mk_block 4 1 0 0"
  "sample_heap 4 = mk_block 0x8005 3 1 0"
  "sample_heap 5 = mk_block 6 4 0 0"
  "sample_heap 6 = mk_block 0 5 0 1"
  by (simp_all add: sample_heap_def)

text \<open>
  On the sample heap, asking for the header of the free block 4 stops the walk
  after blocks 1, 3 and 4: four cells are counted, where the full walk
  (\<^verbatim>\<open>ptr = NULL\<close>) counts fifteen.
\<close>

theorem umm_info_early_return_witness:
  "info_walk sample_heap (UMM_NBLOCK sample_heap 0 AND UMM_BLOCKNO_MASK) ([1, 3] @ [4]) \<and>
   umm_info 16 sample_heap (UMM_BLOCK_addr 4) 0 =
     Some (\<lparr>totalEntries = 3, usedEntries = 1, freeEntries = 2,
             totalBlocks = 4, usedBlocks = 1, freeBlocks = 3\<rparr>, UMM_BLOCK_addr 4) \<and>
   map_option (totalBlocks \<circ> fst) (umm_info 16 sample_heap Null 0) = Some 15"
proof -
  have w: "info_walk sample_heap (UMM_NBLOCK sample_heap 0 AND UMM_BLOCKNO_MASK) ([1, 3] @ [4])"
    by simp
  have n: "(4 :: u16) \<notin> set [1, 3]"
    by simp
  have f: "UMM_NBLOCK sample_heap (unat (4 :: u16)) AND UMM_FREELIST_MASK \<noteq> 0"
    by simp
  have full: "map_option (totalBlocks \<circ> fst) (umm_info 16 sample_heap Null 0) = Some 15"
    by (simp add: umm_info_def umm_info_loop.simps heapInfo_zero_def count_free_def
        count_used_def info_size_def UMM_BLOCK_addr_def)
  show ?thesis
    using w full umm_info_early_return [OF w n f, of 16 0]
    by (simp add: heapInfo_zero_def count_free_def count_used_def info_size_def)
qed

section \<open>The first allocation on a zero heap\<close>

lemma umm_malloc_scan_zero_heap:
  "umm_malloc_scan zero_heap blocks 0 0 0 0x7FFF = Some (0, 0, 0, 0x7FFF)"
  by (subst umm_malloc_scan.simps) simp

lemma umm_malloc_zero_heap:
  assumes "sz \<noteq> 0" and "unat (umm_blocks sz) + 1 < unat UMM_NUMBLOCKS"
  shows "\<exists>h'. umm_malloc UMM_NUMBLOCKS zero_heap sz = Some (h', UMM_DATA_addr 1) \<and>
           UMM_NBLOCK h' 1 = 1 + umm_blocks sz"
  using assms
  by (simp add: umm_malloc_def umm_malloc_search_def umm_malloc_scan_zero_heap
      umm_malloc_take_def umm_malloc_end_def Let_def)

text \<open>
  C8.  For a request so large that its block count \<open>2 + (size - 1 - 4) div 8\<close> is
  \<open>2^16\<close> or more, umm\_blocks returns the count modulo \<open>2^16\<close>, which is smaller than
  the count.  umm\_malloc then works with the wrapped count: on a zero heap with at
  least two more cells than the wrapped count it returns the non-null data address
  of block 1, and the next link it writes gives that block a span of the wrapped
  count, fewer blocks than the request needs.
\<close>

theorem umm_blocks_wraps:
  assumes "4 < sz" and "65536 \<le> 2 + (unat sz - 1 - 4) div 8"
  shows "unat (umm_blocks sz) = (2 + (unat sz - 1 - 4) div 8) mod 2 ^ 16 \<and>
         unat (umm_blocks sz) < 2 + (unat sz - 1 - 4) div 8 \<and>
         (unat (umm_blocks sz) + 1 < unat UMM_NUMBLOCKS \<longrightarrow>
           (\<exists>h'. umm_malloc UMM_NUMBLOCKS zero_heap sz = Some (h', UMM_DATA_addr 1) \<and>
                 UMM_DATA_addr 1 \<noteq> Null \<and>
                 UMM_NBLOCK h' 1 = 1 + umm_blocks sz))"
proof -
  have m: "unat (umm_blocks sz) = (2 + (unat sz - 1 - 4) div 8) mod 2 ^ 16"
    using umm_blocks_unat [OF assms(1)] by simp
  have "(2 + (unat sz - 1 - 4) div 8) mod 65536 < (65536 :: nat)"
    by (rule mod_less_divisor) simp
  also note assms(2)
  finally have l: "unat (umm_blocks sz) < 2 + (unat sz - 1 - 4) div 8"
    using m by simp
  have "sz \<noteq> 0"
    using assms(1) by auto
  then have "unat (umm_blocks sz) + 1 < unat UMM_NUMBLOCKS \<Longrightarrow>
         \<exists>h'. umm_malloc UMM_NUMBLOCKS zero_heap sz = Some (h', UMM_DATA_addr 1) \<and>
              UMM_DATA_addr 1 \<noteq> Null \<and>
              UMM_NBLOCK h' 1 = 1 + umm_blocks sz"
    using umm_malloc_zero_heap [of sz UMM_NUMBLOCKS] by (simp add: UMM_DATA_addr_def)
  with m l show ?thesis
    by blast
qed

text \<open>
  A request of 524293 bytes needs 65538 blocks; on a zero heap of 8 cells umm\_malloc
  returns block 1 with a span of 2 blocks.
\<close>

theorem umm_blocks_wraps_witness:
  "(4 :: size_t) < 524293 \<and> (65536 :: nat) \<le> 2 + (unat (524293 :: size_t) - 1 - 4) div 8 \<and>
   umm_blocks 524293 = 2 \<and> 2 + (unat (524293 :: size_t) - 1 - 4) div 8 = 65538 \<and>
   (\<exists>h'. umm_malloc 8 zero_heap 524293 = Some (h', UMM_DATA_addr 1) \<and>
         UMM_NBLOCK h' 1 = 3)"
proof -
  have a: "(4 :: size_t) < 524293"
    by simp
  have b: "(65536 :: nat) \<le> 2 + (unat (524293 :: size_t) - 1 - 4) div 8"
    by simp
  have c: "umm_blocks 524293 = 2"
    by (simp add: umm_blocks_def)
  have d: "unat (umm_blocks 524293) + 1 < unat (8 :: u16)"
    by (simp add: c)
  show ?thesis
    using a b c d umm_blocks_wraps [OF a b, of 8] by auto
qed

section \<open>Masks and flags of 16-bit links\<close>

lemma bit_32768_int: "bit (32768 :: int) n \<longleftrightarrow> n = 15"
proof -
  have "(32768 :: int) = 2 ^ 15" by simp
  then show ?thesis by (simp only: bit_exp_iff) auto
qed

lemma bit_32767_int: "bit (32767 :: int) n \<longleftrightarrow> n < 15"
proof -
  have "(32767 :: int) = mask 15" by (simp add: mask_eq_exp_minus_1)
  then show ?thesis by (simp only: bit_mask_iff) auto
qed

lemma bit_not_32768_int: "bit (- 32769 :: int) n \<longleftrightarrow> n \<noteq> 15"
proof -
  have "(- 32769 :: int) = NOT 32768" by (simp add: not_int_def)
  then show ?thesis by (simp only: bit_not_iff bit_32768_int) auto
qed

lemmas link_bits = bit_eq_iff [where ?'a = "16 word"] bit_and_iff bit_or_iff bit_not_iff
  bit_32768_int bit_32767_int bit_not_32768_int

lemma mask_and_flag [simp]: "((w :: u16) AND 0x7FFF) AND 0x8000 = 0"
  by (auto simp add: link_bits)

lemma flag_or_mask [simp]: "((w :: u16) OR 0x8000) AND 0x7FFF = w AND 0x7FFF"
  by (auto simp add: link_bits)

lemma flag_or_flag [simp]: "((w :: u16) OR 0x8000) AND 0x8000 = 0x8000"
  by (auto simp add: link_bits)

lemma and_not_flag [simp]: "(w :: u16) AND NOT 0x8000 = w AND 0x7FFF"
  by (auto simp add: link_bits)

lemma and_not_flag' [simp]: "(w :: u16) AND - 32769 = w AND 0x7FFF"
  using and_not_flag [of w] by simp

lemma mask_and_mask [simp]: "((w :: u16) AND 0x7FFF) AND 0x7FFF = w AND 0x7FFF"
  by (auto simp add: link_bits)

lemma no_flag_mask: "(w :: u16) AND 0x8000 = 0 \<Longrightarrow> w AND 0x7FFF = w"
  by (auto simp add: link_bits less_Suc_eq numeral_eq_Suc)

lemma unat_mask_less: "unat ((w :: u16) AND 0x7FFF) < 32768"
proof -
  have "(0x7FFF :: u16) = mask 15" by (simp add: mask_eq_exp_minus_1)
  then have "w AND 0x7FFF = take_bit 15 w" by (simp only: take_bit_eq_mask)
  then have "unat (w AND 0x7FFF) = take_bit 15 (unat w)" by (simp add: unsigned_take_bit_eq)
  then show ?thesis by (simp add: take_bit_eq_mod)
qed

lemma small_mask: "unat (w :: u16) < 32768 \<Longrightarrow> w AND 0x7FFF = w"
proof -
  assume a: "unat w < 32768"
  have "(0x7FFF :: u16) = mask 15" by (simp add: mask_eq_exp_minus_1)
  then have "w AND 0x7FFF = take_bit 15 w" by (simp only: take_bit_eq_mask)
  moreover have "unat (take_bit 15 w) = unat w"
    using a by (simp only: unsigned_take_bit_eq) (simp add: take_bit_eq_mod)
  ultimately show ?thesis by (simp only: word_unat_eq_iff)
qed

lemma small_no_flag: "unat (w :: u16) < 32768 \<Longrightarrow> w AND 0x8000 = 0"
  using small_mask [of w] mask_and_flag [of w] by simp

lemma unat_of_nat_u16: "n < 65536 \<Longrightarrow> unat (of_nat n :: u16) = n"
  by (simp add: unat_of_nat)

lemma of_nat_unat_u16: "unat (w :: u16) = n \<Longrightarrow> w = of_nat n"
  by auto

lemma unat_add_u16: "unat (a :: u16) + unat b < 65536 \<Longrightarrow> unat (a + b) = unat a + unat b"
  by (simp add: unat_add_lem [THEN iffD1])

lemma unat_sub_u16: "unat (b :: u16) \<le> unat a \<Longrightarrow> unat (a - b) = unat a - unat b"
  by (simp add: unat_sub word_le_nat_alt)

section \<open>Block number and free flag after an assignment\<close>

lemma blockno_less: "blockno h b < 32768"
  by (simp add: blockno_def unat_mask_less)

lemma blockno_set [simp]:
  "blockno (set_NBLOCK h b v) x = (if x = b then unat (v AND 0x7FFF) else blockno h x)"
  "blockno (set_PBLOCK h b v) x = blockno h x"
  "blockno (set_NFREE h b v) x = blockno h x"
  "blockno (set_PFREE h b v) x = blockno h x"
  by (simp_all add: blockno_def)

lemma is_free_set [simp]:
  "is_free (set_NBLOCK h b v) x = (if x = b then v AND 0x8000 \<noteq> 0 else is_free h x)"
  "is_free (set_PBLOCK h b v) x = is_free h x"
  "is_free (set_NFREE h b v) x = is_free h x"
  "is_free (set_PFREE h b v) x = is_free h x"
  by (simp_all add: is_free_def)

lemma not_free_blockno: "\<not> is_free h b \<Longrightarrow> unat (UMM_NBLOCK h b) = blockno h b"
  by (simp add: is_free_def blockno_def no_flag_mask)

section \<open>Chains of links\<close>

lemma plink_frame:
  assumes "\<forall>x\<in>set (butlast L). blockno h' x = blockno h x"
    and "\<forall>x\<in>set L. is_free h' x = is_free h x"
    and "\<forall>x\<in>set (tl L). pblock (h' x) = pblock (h x)"
  shows "successively (plink h') L = successively (plink h) L"
  using assms
proof (induction L rule: induct_list012)
  case (3 x y zs)
  then show ?case by (simp add: plink_def)
qed simp_all

lemma flink_frame:
  assumes "\<forall>x\<in>set (butlast L). nfree (h' x) = nfree (h x)"
    and "\<forall>x\<in>set (tl L). pfree (h' x) = pfree (h x)"
  shows "successively (flink h') L = successively (flink h) L"
  using assms
proof (induction L rule: induct_list012)
  case (3 x y zs)
  then show ?case by (simp add: flink_def)
qed simp_all

lemma plink_sorted: "successively (plink h) L \<Longrightarrow> sorted_wrt (<) L"
proof -
  assume "successively (plink h) L"
  then have "successively (<) L"
    by (rule successively_mono) (simp add: plink_def)
  then show ?thesis
    by (simp add: successively_conv_sorted_wrt)
qed

lemma successively_mid:
  "successively P (xs @ a # b # ys) \<longleftrightarrow>
     successively P (xs @ [a]) \<and> P a b \<and> successively P (b # ys)"
  by (auto simp add: successively_append_iff successively_Cons)

section \<open>What the primitives write\<close>

lemma disconnect_sel:
  "nfree (umm_disconnect_from_free_list h c x) =
     (if x = unat (UMM_PFREE h (unat c)) then UMM_NFREE h (unat c) else nfree (h x))"
  "pfree (umm_disconnect_from_free_list h c x) =
     (if x = unat (UMM_NFREE h (unat c)) then UMM_PFREE h (unat c) else pfree (h x))"
  "nblock (umm_disconnect_from_free_list h c x) =
     (if x = unat c then UMM_NBLOCK h (unat c) AND 0x7FFF else nblock (h x))"
  "pblock (umm_disconnect_from_free_list h c x) = pblock (h x)"
  by (simp_all add: umm_disconnect_from_free_list_def Let_def)

lemma make_new_block_sel:
  "nblock (umm_make_new_block h c k fm x) =
     (if x = unat c then (c + k) OR fm
      else if x = unat c + unat k then UMM_NBLOCK h (unat c) AND 0x7FFF
      else nblock (h x))"
  "pblock (umm_make_new_block h c k fm x) =
     (if x = blockno h (unat c) then c + k
      else if x = unat c + unat k then c
      else pblock (h x))"
  "nfree (umm_make_new_block h c k fm x) = nfree (h x)"
  "pfree (umm_make_new_block h c k fm x) = pfree (h x)"
  by (simp_all add: umm_make_new_block_def Let_def blockno_def)

section \<open>Facts of a well-formed heap\<close>

lemma free_set_iff:
  "list_all (\<lambda>f. f \<in> set bs \<and> P f) fl \<and> list_all (\<lambda>b. P b \<longrightarrow> b \<in> set fl) bs \<longleftrightarrow>
   set fl = {b \<in> set bs. P b}"
  by (auto simp add: list_all_iff)

lemma umm_heap_ok_iff:
  "umm_heap_ok N h bs fl lf \<longleftrightarrow>
     unat N \<le> 32767 \<and> lf < unat N \<and> UMM_NBLOCK h 0 = 1 \<and>
     successively (plink h) (0 # bs @ [lf]) \<and> UMM_NBLOCK h lf = 0 \<and>
     successively (flink h) (0 # fl @ [lf]) \<and> UMM_NFREE h lf = 0 \<and>
     distinct fl \<and> set fl = {b \<in> set bs. is_free h b}"
  unfolding umm_heap_ok_def using free_set_iff [of bs "is_free h" fl] by blast

lemma umm_heap_okI:
  assumes "unat N \<le> 32767" "lf < unat N" "UMM_NBLOCK h 0 = 1"
    "successively (plink h) (0 # bs @ [lf])" "UMM_NBLOCK h lf = 0"
    "successively (flink h) (0 # fl @ [lf])" "UMM_NFREE h lf = 0"
    "distinct fl" "set fl = {b \<in> set bs. is_free h b}"
  shows "umm_heap_ok N h bs fl lf"
  using assms by (simp add: umm_heap_ok_iff)

lemma umm_heap_okD:
  assumes "umm_heap_ok N h bs fl lf"
  shows "unat N \<le> 32767" "lf < unat N" "UMM_NBLOCK h 0 = 1"
    "successively (plink h) (0 # bs @ [lf])" "UMM_NBLOCK h lf = 0"
    "successively (flink h) (0 # fl @ [lf])" "UMM_NFREE h lf = 0"
    "distinct fl" "set fl = {b \<in> set bs. is_free h b}"
  using assms by (simp_all add: umm_heap_ok_iff)

lemma umm_heap_ok_sorted:
  assumes "umm_heap_ok N h bs fl lf"
  shows "sorted_wrt (<) (0 # bs @ [lf])"
  using umm_heap_okD(4) [OF assms] by (rule plink_sorted)

lemma umm_heap_ok_bounds:
  assumes "umm_heap_ok N h bs fl lf"
  shows "\<forall>b\<in>set bs. 0 < b \<and> b < lf" "0 < lf" "lf < 32767" "distinct bs"
    "0 \<notin> set fl" "lf \<notin> set fl" "set fl \<subseteq> set bs" "distinct (0 # fl @ [lf])"
    "\<not> is_free h 0" "\<not> is_free h lf"
proof -
  note s = umm_heap_ok_sorted [OF assms]
  note d = umm_heap_okD [OF assms]
  show b: "\<forall>b\<in>set bs. 0 < b \<and> b < lf"
    using s by (auto simp add: sorted_wrt_append)
  have "plink h (last (0 # bs)) lf"
    using d(4) successively_append_iff [of "plink h" "0 # bs" "[lf]"] by simp
  then show p: "0 < lf"
    by (simp add: plink_def)
  show "lf < 32767"
    using d(1,2) by simp
  show "distinct bs"
    using s strict_sorted_iff [of "0 # bs @ [lf]"] by (simp add: sorted_wrt_append)
  show f: "set fl \<subseteq> set bs"
    using d(9) by auto
  show z: "0 \<notin> set fl" and l: "lf \<notin> set fl"
    using f b by auto
  show "distinct (0 # fl @ [lf])"
    using z l p d(8) by simp
  show "\<not> is_free h 0" "\<not> is_free h lf"
    using d(3,5) by (simp_all add: is_free_def)
qed

section \<open>Unlinking from the free list\<close>

lemma last_notin_butlast:
  assumes "distinct X" and "X \<noteq> []"
  shows "last X \<notin> set (butlast X)"
proof -
  have "distinct (butlast X @ [last X])"
    using assms by simp
  then show ?thesis
    by simp
qed

lemma in_set_tl: "x \<in> set (tl X) \<Longrightarrow> x \<in> set X"
  by (cases X) simp_all

lemma flink_unlink:
  assumes ch: "successively (flink h) (X @ f # g # Y)"
    and di: "distinct (X @ f # g # Y)" and ne: "X \<noteq> []"
    and nf: "\<And>x. nfree (h' x) = (if x = last X then nfree (h f) else nfree (h x))"
    and pf: "\<And>x. pfree (h' x) = (if x = g then pfree (h f) else pfree (h x))"
  shows "successively (flink h') (X @ g # Y)"
proof -
  from ch have a: "successively (flink h) X" and b: "flink h (last X) f"
    and c: "flink h f g" and d: "successively (flink h) (g # Y)"
    using ne by (simp_all add: successively_mid successively_append_iff)
  have lX: "last X \<in> set X"
    using ne by simp
  have "successively (flink h') X = successively (flink h) X"
  proof (rule flink_frame)
    show "\<forall>x\<in>set (butlast X). nfree (h' x) = nfree (h x)"
      using di ne last_notin_butlast [of X] by (auto simp add: nf)
    show "\<forall>x\<in>set (tl X). pfree (h' x) = pfree (h x)"
      using di by (auto simp add: pf dest: in_set_tl)
  qed
  with a have a': "successively (flink h') X" by simp
  have b': "flink h' (last X) g"
    using b c by (simp add: flink_def nf pf)
  have "successively (flink h') (g # Y) = successively (flink h) (g # Y)"
  proof (rule flink_frame)
    show "\<forall>x\<in>set (butlast (g # Y)). nfree (h' x) = nfree (h x)"
      using di lX by (auto simp add: nf dest: in_set_butlastD)
    show "\<forall>x\<in>set (tl (g # Y)). pfree (h' x) = pfree (h x)"
      using di by (auto simp add: pf)
  qed
  with d have d': "successively (flink h') (g # Y)" by simp
  show ?thesis
    using a' b' d' ne by (simp add: successively_append_iff)
qed


lemma disconnect_views [simp]:
  "blockno (umm_disconnect_from_free_list h c) x = blockno h x"
  "is_free (umm_disconnect_from_free_list h c) x = (x \<noteq> unat c \<and> is_free h x)"
  by (simp_all add: blockno_def is_free_def disconnect_sel)

lemma disconnect_ok:
  assumes ok: "umm_heap_ok N h bs fl lf" and f: "f \<in> set fl" and c: "unat c = f"
  shows "umm_heap_ok N (umm_disconnect_from_free_list h c) bs (remove1 f fl) lf"
proof -
  let ?h = "umm_disconnect_from_free_list h c"
  note d = umm_heap_okD [OF ok]
  note b = umm_heap_ok_bounds [OF ok]
  from f obtain xs ys where fl: "fl = xs @ f # ys"
    by (auto dest: split_list)
  have nx: "f \<notin> set xs" and ny: "f \<notin> set ys"
    using d(8) fl by auto
  have rm: "remove1 f fl = xs @ ys"
    using nx fl by (simp add: remove1_append)
  obtain g Y where gY: "ys @ [lf] = g # Y"
    by (cases ys) auto
  have ch: "successively (flink h) ((0 # xs) @ f # g # Y)"
    using d(6) fl gY by simp
  have di: "distinct ((0 # xs) @ f # g # Y)"
    using b(8) fl gY by (metis append_Cons append_assoc)
  from ch have lk: "flink h (last (0 # xs)) f" "flink h f g"
    by (simp_all only: successively_mid successively_append_iff) simp_all
  have "successively (flink ?h) ((0 # xs) @ g # Y)"
  proof (rule flink_unlink [OF ch di])
    show "0 # xs \<noteq> []" by simp
    show "\<And>x. nfree (?h x) = (if x = last (0 # xs) then nfree (h f) else nfree (h x))"
      using lk c by (simp add: flink_def disconnect_sel)
    show "\<And>x. pfree (?h x) = (if x = g then pfree (h f) else pfree (h x))"
      using lk c by (simp add: flink_def disconnect_sel)
  qed
  then have fc: "successively (flink ?h) (0 # remove1 f fl @ [lf])"
    using gY rm by simp
  have pc: "successively (plink ?h) (0 # bs @ [lf])"
    using d(4) by (rule successively_mono) (simp add: plink_def disconnect_sel)
  have f0: "f \<noteq> 0"
    using f b(5) by metis
  have fl': "f \<noteq> lf"
    using f b(6) by metis
  have "last (0 # xs) \<in> set (0 # xs)"
    by (rule last_in_set) simp
  moreover have "lf \<notin> set (0 # xs)"
    using b(8) fl by auto
  ultimately have l: "last (0 # xs) \<noteq> lf"
    by metis
  have nl: "UMM_NFREE ?h lf = 0"
    using lk l d(7) c by (auto simp add: flink_def disconnect_sel)
  have st: "set (remove1 f fl) = {b \<in> set bs. is_free ?h b}"
    using d(8,9) c by auto
  show ?thesis
    using d(1,2,3,5) f0 fl' c pc fc nl st d(8)
    by (intro umm_heap_okI) (simp_all add: disconnect_sel)
qed

section \<open>Splitting a block\<close>

lemma plink_split_list:
  assumes "successively (plink h) (0 # bs @ [lf])" and "bs = xs @ b # ys"
  obtains n Y where "ys @ [lf] = n # Y"
    and "successively (plink h) ((0 # xs) @ [b])" and "plink h b n"
    and "successively (plink h) (n # Y)"
    and "\<forall>x\<in>set (0 # xs). x < b" and "b < n" and "\<forall>y\<in>set Y. n < y"
proof -
  obtain n Y where nY: "ys @ [lf] = n # Y"
    by (cases ys) auto
  have ch: "successively (plink h) ((0 # xs) @ b # n # Y)"
    using assms nY by simp
  then have a: "successively (plink h) ((0 # xs) @ [b])" "plink h b n"
    "successively (plink h) (n # Y)"
    by (simp_all only: successively_mid)
  have "sorted_wrt (<) ((0 # xs) @ b # n # Y)"
    using ch by (rule plink_sorted)
  then have "\<forall>x\<in>set (0 # xs). x < b" "b < n" "\<forall>y\<in>set Y. n < y"
    by (auto simp add: sorted_wrt_append)
  with nY a show ?thesis
    by (rule that)
qed

lemma make_new_block_ok:
  assumes ok: "umm_heap_ok N h bs fl lf" and bs: "bs = xs @ b # ys" and c: "unat c = b"
    and k0: "0 < unat k" and ks: "b + unat k < blockno h b"
    and fm: "fm = (if is_free h b then 0x8000 else 0)"
  shows "umm_heap_ok N (umm_make_new_block h c k fm) (xs @ b # (b + unat k) # ys) fl lf"
proof -
  let ?h = "umm_make_new_block h c k fm"
  let ?s = "b + unat k"
  note d = umm_heap_okD [OF ok]
  note bd = umm_heap_ok_bounds [OF ok]
  from d(4) bs obtain n Y where nY: "ys @ [lf] = n # Y"
    and X: "successively (plink h) ((0 # xs) @ [b])" and bn: "plink h b n"
    and Y: "successively (plink h) (n # Y)"
    and lt: "\<forall>x\<in>set (0 # xs). x < b" "b < n" "\<forall>y\<in>set Y. n < y"
    by (rule plink_split_list)
  have n: "blockno h b = n"
    using bn by (simp add: plink_def)
  have nlf: "n \<le> lf"
    using nY lt(3) by (cases ys) auto
  have s: "b < ?s" "?s < n" "?s < 32768"
    using k0 ks n nlf bd(3) by simp_all
  have ck: "unat (c + k) = ?s"
    using c s by (simp add: unat_add_u16)
  have bl_b: "blockno ?h b = ?s"
    using c ck s fm by (simp add: blockno_def small_mask make_new_block_sel)
  have fr_b: "is_free ?h b = is_free h b"
    using c ck s fm small_no_flag [of "c + k"] by (simp add: is_free_def make_new_block_sel)
  have bl_s: "blockno ?h ?s = n"
    using c s n by (simp add: blockno_def make_new_block_sel)
  have fr_s: "\<not> is_free ?h ?s"
    using c s by (simp add: is_free_def make_new_block_sel)
  have nb: "\<And>x. x \<noteq> b \<Longrightarrow> x \<noteq> ?s \<Longrightarrow> nblock (?h x) = nblock (h x)"
    using c by (simp add: make_new_block_sel)
  have bo: "\<And>x. x \<noteq> b \<Longrightarrow> x \<noteq> ?s \<Longrightarrow> blockno ?h x = blockno h x"
    using nb by (simp add: blockno_def)
  have fo: "\<And>x. x \<noteq> b \<Longrightarrow> x \<noteq> ?s \<Longrightarrow> is_free ?h x = is_free h x"
    using nb by (simp add: is_free_def)
  have pb: "\<And>x. x \<noteq> n \<Longrightarrow> x \<noteq> ?s \<Longrightarrow> pblock (?h x) = pblock (h x)"
    using c n by (simp add: make_new_block_sel)
  have pb_s: "unat (pblock (?h ?s)) = b"
    using c n s by (simp add: make_new_block_sel)
  have pb_n: "unat (pblock (?h n)) = ?s"
    using c n ck by (simp add: make_new_block_sel)
  have "successively (plink ?h) ((0 # xs) @ [b]) = successively (plink h) ((0 # xs) @ [b])"
  proof (rule plink_frame)
    show "\<forall>x\<in>set (butlast ((0 # xs) @ [b])). blockno ?h x = blockno h x"
      using lt(1) s bo by auto
    show "\<forall>x\<in>set ((0 # xs) @ [b]). is_free ?h x = is_free h x"
      using lt(1) s fo fr_b by auto
    show "\<forall>x\<in>set (tl ((0 # xs) @ [b])). pblock (?h x) = pblock (h x)"
      using lt(1,2) s pb by auto
  qed
  with X have X': "successively (plink ?h) ((0 # xs) @ [b])" by simp
  have "successively (plink ?h) (n # Y) = successively (plink h) (n # Y)"
  proof (rule plink_frame)
    show "\<forall>x\<in>set (butlast (n # Y)). blockno ?h x = blockno h x"
      using lt(2,3) s bo by (auto dest!: in_set_butlastD)
    show "\<forall>x\<in>set (n # Y). is_free ?h x = is_free h x"
      using lt(2,3) s fo by auto
    show "\<forall>x\<in>set (tl (n # Y)). pblock (?h x) = pblock (h x)"
      using lt(2,3) s pb by auto
  qed
  with Y have Y': "successively (plink ?h) (n # Y)" by simp
  have l1: "plink ?h b ?s"
    using s bl_b pb_s fr_s by (simp add: plink_def)
  have l2: "plink ?h ?s n"
    using s bl_s pb_n fr_s by (simp add: plink_def)
  have "successively (plink ?h) ((0 # xs) @ b # ?s # n # Y)"
    using X' l1 l2 Y' by (simp only: successively_mid successively.simps)
  then have pc: "successively (plink ?h) (0 # (xs @ b # ?s # ys) @ [lf])"
    using nY by simp
  have fc: "successively (flink ?h) (0 # fl @ [lf])"
    using d(6) flink_frame [of "0 # fl @ [lf]" ?h h] by (simp add: make_new_block_sel)
  have b0: "0 < b" and blf: "b < lf"
    using bd(1) bs by auto
  have z: "UMM_NBLOCK ?h 0 = 1"
    using d(3) b0 s nb [of 0] by simp
  have e: "UMM_NBLOCK ?h lf = 0"
    using d(5) blf s nlf nb [of lf] by simp
  have "\<And>x. x \<in> set bs \<Longrightarrow> is_free ?h x = is_free h x"
  proof -
    fix x assume "x \<in> set bs"
    then consider "x \<in> set xs" | "x = b" | "x \<in> set ys" using bs by auto
    then show "is_free ?h x = is_free h x"
    proof cases
      case 1 then show ?thesis using lt(1) s fo by auto
    next
      case 2 then show ?thesis using fr_b by simp
    next
      case 3
      then have "x \<in> set (n # Y)" using nY by (metis in_set_conv_decomp append_Cons append_assoc Un_iff set_append)
      then show ?thesis using lt(2,3) s fo by auto
    qed
  qed
  then have st: "set fl = {x \<in> set (xs @ b # ?s # ys). is_free ?h x}"
    using d(9) fr_s bs by auto
  show ?thesis
    using d(1,2,7,8) z pc e fc st by (intro umm_heap_okI) (simp_all add: make_new_block_sel)
qed

section \<open>Merging a used block into its predecessor\<close>

lemma merge_ok:
  assumes ok: "umm_heap_ok N h bs fl lf" and bs: "bs = xs @ p # c # ys"
    and uc: "\<not> is_free h c"
    and na: "\<not> (is_free h p \<and> is_free h (blockno h c))"
    and hn: "\<And>x. nblock (h' x) = (if x = p then w else nblock (h x))"
    and w: "w AND 0x7FFF = UMM_NBLOCK h c AND 0x7FFF" "(w AND 0x8000 \<noteq> 0) = is_free h p"
    and hp: "\<And>x. pblock (h' x) = (if x = blockno h c then v else pblock (h x))"
    and v: "unat v = p"
    and hf: "\<And>x. nfree (h' x) = nfree (h x)" "\<And>x. pfree (h' x) = pfree (h x)"
  shows "umm_heap_ok N h' (xs @ p # ys) fl lf"
proof -
  note d = umm_heap_okD [OF ok]
  note bd = umm_heap_ok_bounds [OF ok]
  have bs': "bs = (xs @ [p]) @ c # ys"
    using bs by simp
  from d(4) bs' obtain nn Y where nY: "ys @ [lf] = nn # Y"
    and cn: "plink h c nn" and Y: "successively (plink h) (nn # Y)"
    and lt: "c < nn" "\<forall>y\<in>set Y. nn < y"
    by (rule plink_split_list)
  from d(4) bs obtain c' Y' where c'Y': "(c # ys) @ [lf] = c' # Y'"
    and X: "successively (plink h) ((0 # xs) @ [p])" and pc: "plink h p c'"
    and lt': "\<forall>x\<in>set (0 # xs). x < p" "p < c'"
    by (rule plink_split_list)
  have c': "c' = c"
    using c'Y' by simp
  have nn: "blockno h c = nn"
    using cn by (simp add: plink_def)
  have pnn: "p < nn"
    using lt'(2) lt(1) c' by simp
  have bl_p: "blockno h' p = nn"
    using w(1) nn by (simp add: blockno_def hn)
  have fr_p: "is_free h' p = is_free h p"
    using w(2) by (simp add: is_free_def hn)
  have bo: "\<And>x. x \<noteq> p \<Longrightarrow> blockno h' x = blockno h x"
    by (simp add: blockno_def hn)
  have fo: "\<And>x. is_free h' x = is_free h x"
    using fr_p by (simp add: is_free_def hn)
  have pb: "\<And>x. x \<noteq> nn \<Longrightarrow> pblock (h' x) = pblock (h x)"
    using nn by (simp add: hp)
  have pb_nn: "unat (pblock (h' nn)) = p"
    using nn v by (simp add: hp)
  have "successively (plink h') ((0 # xs) @ [p]) = successively (plink h) ((0 # xs) @ [p])"
  proof (rule plink_frame)
    show "\<forall>x\<in>set (butlast ((0 # xs) @ [p])). blockno h' x = blockno h x"
      using lt'(1) bo by auto
    show "\<forall>x\<in>set ((0 # xs) @ [p]). is_free h' x = is_free h x"
      using fo by auto
    show "\<forall>x\<in>set (tl ((0 # xs) @ [p])). pblock (h' x) = pblock (h x)"
      using lt'(1) pnn pb by auto
  qed
  with X have X': "successively (plink h') ((0 # xs) @ [p])" by simp
  have "successively (plink h') (nn # Y) = successively (plink h) (nn # Y)"
  proof (rule plink_frame)
    show "\<forall>x\<in>set (butlast (nn # Y)). blockno h' x = blockno h x"
      using lt(2) pnn bo by (auto dest!: in_set_butlastD)
    show "\<forall>x\<in>set (nn # Y). is_free h' x = is_free h x"
      using fo by auto
    show "\<forall>x\<in>set (tl (nn # Y)). pblock (h' x) = pblock (h x)"
      using lt(2) pb by auto
  qed
  with Y have Y': "successively (plink h') (nn # Y)" by simp
  have l: "plink h' p nn"
    using pnn bl_p pb_nn na nn fo by (simp add: plink_def)
  have "successively (plink h') ((0 # xs) @ p # nn # Y)"
    using X' l Y' by (simp only: successively_mid)
  then have pch: "successively (plink h') (0 # (xs @ p # ys) @ [lf])"
    using nY by simp
  have fc: "successively (flink h') (0 # fl @ [lf])"
    using d(6) flink_frame [of "0 # fl @ [lf]" h' h] by (simp add: hf)
  have p0: "0 < p" and plf: "p < lf"
    using bd(1) bs by auto
  have z: "UMM_NBLOCK h' 0 = 1"
    using d(3) p0 by (simp add: hn)
  have e: "UMM_NBLOCK h' lf = 0"
    using d(5) plf by (simp add: hn)
  have "c \<notin> set fl"
    using d(9) uc by simp
  then have st: "set fl = {x \<in> set (xs @ p # ys). is_free h' x}"
    using d(9) bs fo by auto
  show ?thesis
    using d(1,2,7,8) z pch e fc st by (intro umm_heap_okI) (simp_all add: hf)
qed

section \<open>umm\_assimilate\_up and umm\_assimilate\_down\<close>

lemma assimilate_up_eq:
  assumes True: "is_free h n" and c: "unat c = b" and un: "unat (UMM_NBLOCK h b) = n"
    and bnn: "b \<noteq> n"
  shows "umm_assimilate_up h c =
    set_NBLOCK (set_PBLOCK (umm_disconnect_from_free_list h (UMM_NBLOCK h b))
       (blockno (umm_disconnect_from_free_list h (UMM_NBLOCK h b)) n) c) b
       (UMM_NBLOCK (umm_disconnect_from_free_list h (UMM_NBLOCK h b)) n AND 0x7FFF)"
proof -
  have nb1: "UMM_NBLOCK (umm_disconnect_from_free_list h (UMM_NBLOCK h b)) b = UMM_NBLOCK h b"
    using un bnn by (simp add: disconnect_sel)
  have a: "UMM_NBLOCK h (unat (UMM_NBLOCK h (unat c))) AND 0x8000 \<noteq> 0"
    using True c un by (simp add: is_free_def)
  show ?thesis
    unfolding umm_assimilate_up_def Let_def
    apply (simp only: a if_True)
    apply (simp only: c nb1 un blockno_def)
    apply (simp only: set_sel nb1 un simp_thms if_True)
    done
qed


lemma assimilate_up_not_free:
  "\<not> is_free h (unat (UMM_NBLOCK h (unat c))) \<Longrightarrow> umm_assimilate_up h c = h"
  by (simp add: umm_assimilate_up_def is_free_def)

lemma assimilate_up_ok:
  assumes ok: "umm_heap_ok N h bs fl lf" and bs: "bs = xs @ b # ys" and c: "unat c = b"
    and ub: "\<not> is_free h b"
  obtains ys' fl' where "umm_heap_ok N (umm_assimilate_up h c) (xs @ b # ys') fl' lf"
    and "\<not> is_free (umm_assimilate_up h c) b"
    and "\<not> is_free (umm_assimilate_up h c) (blockno (umm_assimilate_up h c) b)"
    and "set ys' \<subseteq> set ys" and "set fl' \<subseteq> set fl"
proof -
  let ?h = "umm_assimilate_up h c"
  note d = umm_heap_okD [OF ok]
  note bd = umm_heap_ok_bounds [OF ok]
  from d(4) bs obtain n Y where nY: "ys @ [lf] = n # Y"
    and bn: "plink h b n" and Y: "successively (plink h) (n # Y)"
    and lt: "b < n" "\<forall>y\<in>set Y. n < y"
    by (rule plink_split_list)
  have n: "blockno h b = n"
    using bn by (simp add: plink_def)
  then have un: "unat (UMM_NBLOCK h b) = n"
    using ub by (simp add: not_free_blockno)
  show ?thesis
  proof (cases "is_free h n")
    case False
    then have "?h = h"
      using c un assimilate_up_not_free [of h c] by simp
    then show ?thesis
      using ok bs ub False n that [of ys fl] by auto
  next
    case True
    have "n \<noteq> lf"
      using True bd(10) by metis
    then obtain ys' where ys: "ys = n # ys'"
      using nY by (cases ys) simp_all
    have "n \<in> set bs"
      using bs ys by simp
    then have nfl: "n \<in> set fl"
      using d(9) True by simp
    let ?h1 = "umm_disconnect_from_free_list h (UMM_NBLOCK h b)"
    have ok1: "umm_heap_ok N ?h1 bs (remove1 n fl) lf"
      using ok nfl un by (rule disconnect_ok)
    have bs1: "bs = xs @ b # n # ys'"
      using bs ys by simp
    have bnn: "b \<noteq> n"
      using lt(1) by simp
    have eq: "?h = set_NBLOCK (set_PBLOCK ?h1 (blockno ?h1 n) c) b (UMM_NBLOCK ?h1 n AND 0x7FFF)"
      using True c un bnn by (rule assimilate_up_eq)
    have u1: "\<not> is_free ?h1 n" "\<not> is_free ?h1 b"
      using un ub by simp_all
    have okh: "umm_heap_ok N ?h (xs @ b # ys') (remove1 n fl) lf"
    proof (rule merge_ok [OF ok1 bs1 u1(1)])
      show "\<not> (is_free ?h1 b \<and> is_free ?h1 (blockno ?h1 n))"
        using u1(2) by (simp del: disconnect_views)
      show "\<And>x. nblock (?h x) = (if x = b then UMM_NBLOCK ?h1 n AND 0x7FFF else nblock (?h1 x))"
        by (simp add: eq)
      show "(UMM_NBLOCK ?h1 n AND 0x7FFF) AND 0x7FFF = UMM_NBLOCK ?h1 n AND 0x7FFF"
        by simp
      show "((UMM_NBLOCK ?h1 n AND 0x7FFF) AND 0x8000 \<noteq> 0) = is_free ?h1 b"
        using u1(2) by (simp del: disconnect_views)
      show "\<And>x. pblock (?h x) = (if x = blockno ?h1 n then c else pblock (?h1 x))"
        by (simp add: eq)
      show "unat c = b"
        by (rule c)
      show "\<And>x. nfree (?h x) = nfree (?h1 x)" "\<And>x. pfree (?h x) = pfree (?h1 x)"
        by (simp_all add: eq)
    qed
    have fb: "\<not> is_free ?h b"
      by (simp add: eq)
    from Y ys nY obtain nn where nn: "plink h n nn"
      by (cases Y) auto
    then have "\<not> is_free h nn" "blockno h n = nn" "n < nn"
      using True by (simp_all add: plink_def)
    then have fn: "\<not> is_free ?h (blockno ?h b)"
      using lt(1) un by (simp add: eq blockno_def is_free_def disconnect_sel)
    have s1: "set ys' \<subseteq> set ys"
      using ys by auto
    have s2: "set (remove1 n fl) \<subseteq> set fl"
      by (rule set_remove1_subset)
    show ?thesis
      using okh fb fn s1 s2 by (rule that)
  qed
qed

lemma assimilate_down_ok:
  assumes ok: "umm_heap_ok N h bs fl lf" and bs: "bs = xs @ p # b # ys" and c: "unat c = b"
    and ub: "\<not> is_free h b"
    and fm: "fm = (if is_free h p then 0x8000 else 0)"
    and na: "\<not> (is_free h p \<and> is_free h (blockno h b))"
  shows "umm_heap_ok N (fst (umm_assimilate_down h c fm)) (xs @ p # ys) fl lf"
    and "unat (snd (umm_assimilate_down h c fm)) = p"
    and "is_free (fst (umm_assimilate_down h c fm)) p = is_free h p"
proof -
  let ?h = "fst (umm_assimilate_down h c fm)"
  note d = umm_heap_okD [OF ok]
  have bs': "bs = (xs @ [p]) @ b # ys"
    using bs by simp
  from d(4) bs' obtain nn Y where bn: "plink h b nn" and lt: "b < nn"
    by (rule plink_split_list)
  from d(4) bs obtain b' Y' where "(b # ys) @ [lf] = b' # Y'" and "plink h p b'" and "p < b'"
    by (rule plink_split_list)
  then have pb: "plink h p b" and ltp: "p < b"
    by simp_all
  have up: "unat (UMM_PBLOCK h b) = p"
    using pb by (simp add: plink_def)
  have un: "unat (UMM_NBLOCK h b) = blockno h b"
    using ub by (rule not_free_blockno)
  have nn: "blockno h b = nn"
    using bn by (simp add: plink_def)
  have eq: "?h = set_PBLOCK (set_NBLOCK h p (UMM_NBLOCK h b OR fm)) (blockno h b) (UMM_PBLOCK h b)"
    using c up un ltp by (simp add: umm_assimilate_down_def Let_def)
  show "unat (snd (umm_assimilate_down h c fm)) = p"
    using c up un ltp lt nn by (simp add: umm_assimilate_down_def Let_def)
  have nf: "UMM_NBLOCK h b AND 0x8000 = 0"
    using ub by (simp add: is_free_def)
  show "umm_heap_ok N ?h (xs @ p # ys) fl lf"
  proof (rule merge_ok [OF ok bs ub na])
    show "\<And>x. nblock (?h x) = (if x = p then UMM_NBLOCK h b OR fm else nblock (h x))"
      by (simp add: eq)
    show "(UMM_NBLOCK h b OR fm) AND 0x7FFF = UMM_NBLOCK h b AND 0x7FFF"
      using fm by simp
    show "((UMM_NBLOCK h b OR fm) AND 0x8000 \<noteq> 0) = is_free h p"
      using fm nf by simp
    show "\<And>x. pblock (?h x) = (if x = blockno h b then UMM_PBLOCK h b else pblock (h x))"
      by (simp add: eq)
    show "unat (UMM_PBLOCK h b) = p"
      by (rule up)
    show "\<And>x. nfree (?h x) = nfree (h x)" "\<And>x. pfree (?h x) = pfree (h x)"
      by (simp_all add: eq)
  qed
  have "is_free ?h p = ((UMM_NBLOCK h b OR fm) AND 0x8000 \<noteq> 0)"
    by (simp add: eq is_free_def)
  then show "is_free ?h p = is_free h p"
    using fm nf by simp
qed

section \<open>umm\_free\<close>

lemma free_insert_sel:
  "unat c \<noteq> 0 \<Longrightarrow> nfree (umm_free_insert h c x) =
     (if x = 0 then c else if x = unat c then UMM_NFREE h 0 else nfree (h x))"
  "pfree (umm_free_insert h c x) =
     (if x = unat c then 0 else if x = unat (UMM_NFREE h 0) then c else pfree (h x))"
  "nblock (umm_free_insert h c x) =
     (if x = unat c then UMM_NBLOCK h (unat c) OR 0x8000 else nblock (h x))"
  "pblock (umm_free_insert h c x) = pblock (h x)"
  by (simp_all add: umm_free_insert_def Let_def)

lemma free_insert_ok:
  assumes ok: "umm_heap_ok N h bs fl lf" and bs: "bs = xs @ b # ys" and c: "unat c = b"
    and ub: "\<not> is_free h b"
    and up: "\<not> is_free h (last (0 # xs))"
    and un: "\<not> is_free h (blockno h b)"
  shows "umm_heap_ok N (umm_free_insert h c) bs (b # fl) lf"
proof -
  let ?h = "umm_free_insert h c"
  note d = umm_heap_okD [OF ok]
  note bd = umm_heap_ok_bounds [OF ok]
  from d(4) bs obtain n Y where nY: "ys @ [lf] = n # Y"
    and X: "successively (plink h) ((0 # xs) @ [b])" and bn: "plink h b n"
    and Y: "successively (plink h) (n # Y)"
    and lt: "\<forall>x\<in>set (0 # xs). x < b" "b < n" "\<forall>y\<in>set Y. n < y"
    by (rule plink_split_list)
  have b0: "b \<noteq> 0" and blf: "b \<noteq> lf"
    using bd(1) bs by auto
  have bfl: "b \<notin> set fl"
    using d(9) ub by simp
  have n: "blockno h b = n"
    using bn by (simp add: plink_def)
  have nb: "\<And>x. x \<noteq> b \<Longrightarrow> nblock (?h x) = nblock (h x)"
    using c by (simp add: free_insert_sel)
  have bo: "\<And>x. blockno ?h x = blockno h x"
    using c by (simp add: blockno_def free_insert_sel)
  have fo: "\<And>x. x \<noteq> b \<Longrightarrow> is_free ?h x = is_free h x"
    using nb by (simp add: is_free_def)
  have fb: "is_free ?h b"
    using c by (simp add: is_free_def free_insert_sel)
  have pb: "\<And>x. pblock (?h x) = pblock (h x)"
    by (simp add: free_insert_sel)
  have X0: "successively (plink h) (0 # xs)" and pl: "plink h (last (0 # xs)) b"
    using X successively_append_iff [of "plink h" "0 # xs" "[b]"] by simp_all
  have "successively (plink ?h) (0 # xs) = successively (plink h) (0 # xs)"
  proof (rule plink_frame)
    show "\<forall>x\<in>set (butlast (0 # xs)). blockno ?h x = blockno h x"
      using bo by simp
    show "\<forall>x\<in>set (0 # xs). is_free ?h x = is_free h x"
      using lt(1) fo by auto
    show "\<forall>x\<in>set (tl (0 # xs)). pblock (?h x) = pblock (h x)"
      using pb by simp
  qed
  with X0 have X': "successively (plink ?h) (0 # xs)" by simp
  have lX: "last (0 # xs) \<in> set (0 # xs)"
    by (rule last_in_set) simp
  then have "last (0 # xs) \<noteq> b"
    using lt(1) by auto
  then have pl': "plink ?h (last (0 # xs)) b"
    using pl up fo [of "last (0 # xs)"] bo pb by (simp add: plink_def)
  have bn': "plink ?h b n"
    using bn un n lt(2) fo [of n] bo pb by (simp add: plink_def)
  have "successively (plink ?h) (n # Y) = successively (plink h) (n # Y)"
  proof (rule plink_frame)
    show "\<forall>x\<in>set (butlast (n # Y)). blockno ?h x = blockno h x"
      using bo by simp
    show "\<forall>x\<in>set (n # Y). is_free ?h x = is_free h x"
      using lt(2,3) fo by auto
    show "\<forall>x\<in>set (tl (n # Y)). pblock (?h x) = pblock (h x)"
      using pb by simp
  qed
  with Y have Y': "successively (plink ?h) (n # Y)" by simp
  have "successively (plink ?h) ((0 # xs) @ b # n # Y)"
    using X' pl' bn' Y' by (simp only: successively_mid successively_append_iff) simp
  then have pc: "successively (plink ?h) (0 # bs @ [lf])"
    using nY bs by simp
  obtain g G where gG: "fl @ [lf] = g # G"
    by (cases fl) auto
  have di: "distinct (0 # g # G)"
    using bd(8) gG by simp
  have bG: "b \<noteq> g" "b \<notin> set G"
    using bfl blf gG by (cases fl; auto)+
  have fg: "flink h 0 g" and fG: "successively (flink h) (g # G)"
    using d(6) gG by simp_all
  have g: "unat (UMM_NFREE h 0) = g"
    using fg by (simp add: flink_def)
  have "successively (flink ?h) (g # G) = successively (flink h) (g # G)"
  proof (rule flink_frame)
    show "\<forall>x\<in>set (butlast (g # G)). nfree (?h x) = nfree (h x)"
      using di bG c b0 by (auto simp add: free_insert_sel dest!: in_set_butlastD)
    show "\<forall>x\<in>set (tl (g # G)). pfree (?h x) = pfree (h x)"
      using di bG c g by (auto simp add: free_insert_sel)
  qed
  with fG have G': "successively (flink ?h) (g # G)" by simp
  have f1: "flink ?h 0 b"
    using c b0 by (simp add: flink_def free_insert_sel)
  have f2: "flink ?h b g"
    using c b0 g bG by (simp add: flink_def free_insert_sel)
  have "successively (flink ?h) (0 # b # g # G)"
    using f1 f2 G' by simp
  then have fc: "successively (flink ?h) (0 # (b # fl) @ [lf])"
    using gG by simp
  have z: "UMM_NBLOCK ?h 0 = 1"
    using d(3) b0 nb [of 0] by simp
  have e: "UMM_NBLOCK ?h lf = 0"
    using d(5) blf nb [of lf] by simp
  have nl: "UMM_NFREE ?h lf = 0"
    using d(7) c b0 blf bd(2) by (simp add: free_insert_sel)
  have dl: "distinct (b # fl)"
    using bfl d(8) by simp
  have "\<And>x. x \<in> set bs \<Longrightarrow> is_free ?h x = (x = b \<or> is_free h x)"
    using fo fb by metis
  then have st: "set (b # fl) = {x \<in> set bs. is_free ?h x}"
    using d(9) bs by auto
  show ?thesis
    using d(1,2) z pc e fc nl dl st by (intro umm_heap_okI)
qed

lemma block_of_ptr_data: "b < 65536 \<Longrightarrow> unat (block_of_ptr (8 * b + 4)) = b"
  by (simp add: block_of_ptr_def unat_of_nat_u16)

lemma umm_free_data:
  "umm_free h (UMM_DATA_addr b) =
     (let c = block_of_ptr (8 * b + 4); h1 = umm_assimilate_up h c
      in if is_free h1 (unat (UMM_PBLOCK h1 (unat c)))
         then fst (umm_assimilate_down h1 c 0x8000)
         else umm_free_insert h1 c)"
  by (simp add: umm_free_def UMM_DATA_addr_def is_free_def Let_def)

lemma umm_free_ok:
  assumes ok: "umm_heap_ok N h bs fl lf" and ub: "used_block h bs b"
  shows "\<exists>bs' fl'. umm_heap_ok N (umm_free h (UMM_DATA_addr b)) bs' fl' lf"
proof -
  define c where "c = block_of_ptr (8 * b + 4)"
  define h1 where "h1 = umm_assimilate_up h c"
  note bd = umm_heap_ok_bounds [OF ok]
  from ub have bb: "b \<in> set bs" and nf: "\<not> is_free h b"
    by (simp_all add: used_block_def)
  then obtain xs ys where bs: "bs = xs @ b # ys"
    by (auto dest: split_list)
  have "b < lf"
    using bd(1) bb by simp
  then have cb: "unat c = b"
    using bd(3) by (simp add: c_def block_of_ptr_data)
  from ok bs cb nf obtain ys' fl' where ok1: "umm_heap_ok N h1 (xs @ b # ys') fl' lf"
    and nf1: "\<not> is_free h1 b" and nn1: "\<not> is_free h1 (blockno h1 b)"
    unfolding h1_def by (rule assimilate_up_ok)
  note d1 = umm_heap_okD [OF ok1]
  note bd1 = umm_heap_ok_bounds [OF ok1]
  from d1(4) obtain n Y where "plink h1 (last (0 # xs)) b"
    using successively_append_iff [of "plink h1" "0 # xs" "b # ys' @ [lf]"] by auto
  then have pb: "unat (UMM_PBLOCK h1 b) = last (0 # xs)"
    by (simp add: plink_def)
  have eq: "umm_free h (UMM_DATA_addr b) =
      (if is_free h1 (last (0 # xs)) then fst (umm_assimilate_down h1 c 0x8000)
       else umm_free_insert h1 c)"
    using cb pb by (simp add: umm_free_data Let_def c_def [symmetric] h1_def [symmetric])
  show ?thesis
  proof (cases "is_free h1 (last (0 # xs))")
    case True
    then have "xs \<noteq> []"
      using bd1(9) by auto
    then obtain xs' p where xs: "xs = xs' @ [p]"
      by (metis append_butlast_last_id)
    then have p: "last (0 # xs) = p"
      by simp
    have bs1: "xs @ b # ys' = xs' @ p # b # ys'"
      using xs by simp
    have "umm_heap_ok N (fst (umm_assimilate_down h1 c 0x8000)) (xs' @ p # ys') fl' lf"
      using ok1 bs1 cb nf1 _ _
    proof (rule assimilate_down_ok(1))
      show "0x8000 = (if is_free h1 p then 0x8000 else 0)"
        using True p by simp
      show "\<not> (is_free h1 p \<and> is_free h1 (blockno h1 b))"
        using nn1 by simp
    qed
    then show ?thesis
      using eq True by auto
  next
    case False
    have "umm_heap_ok N (umm_free_insert h1 c) (xs @ b # ys') (b # fl') lf"
      using ok1 _ cb nf1 False nn1 by (rule free_insert_ok) simp
    then show ?thesis
      using eq False by auto
  qed
qed

section \<open>The best-fit search of umm\_malloc\<close>

section \<open>The best-fit scan\<close>

lemma best_fit_fold_cases:
  "best_fit_fold h b F (bb0, bs0) = (bb, bs) \<Longrightarrow>
     ((bb, bs) = (bb0, bs0) \<and> (\<forall>g\<in>set F. b \<le> span h g \<longrightarrow> bs0 \<le> span h g)) \<or>
     (\<exists>xs ys. F = xs @ bb # ys \<and> bs = span h bb \<and> b \<le> bs \<and> bs < bs0 \<and>
        (\<forall>g\<in>set xs. b \<le> span h g \<longrightarrow> bs < span h g) \<and>
        (\<forall>g\<in>set ys. b \<le> span h g \<longrightarrow> bs \<le> span h g))"
proof (induction F arbitrary: bb0 bs0)
  case Nil
  then show ?case by simp
next
  case (Cons f F)
  show ?case
  proof (cases "b \<le> span h f \<and> span h f < bs0")
    case True
    with Cons.prems have "best_fit_fold h b F (f, span h f) = (bb, bs)"
      by simp
    from Cons.IH [OF this] show ?thesis
    proof
      assume a: "(bb, bs) = (f, span h f) \<and> (\<forall>g\<in>set F. b \<le> span h g \<longrightarrow> span h f \<le> span h g)"
      then have "f # F = [] @ bb # F \<and> bs = span h bb \<and> b \<le> bs \<and> bs < bs0 \<and>
        (\<forall>g\<in>set []. b \<le> span h g \<longrightarrow> bs < span h g) \<and>
        (\<forall>g\<in>set F. b \<le> span h g \<longrightarrow> bs \<le> span h g)"
        using True by simp
      then show ?thesis by blast
    next
      assume "\<exists>xs ys. F = xs @ bb # ys \<and> bs = span h bb \<and> b \<le> bs \<and> bs < span h f \<and>
        (\<forall>g\<in>set xs. b \<le> span h g \<longrightarrow> bs < span h g) \<and>
        (\<forall>g\<in>set ys. b \<le> span h g \<longrightarrow> bs \<le> span h g)"
      then obtain xs ys where x: "F = xs @ bb # ys" "bs = span h bb" "b \<le> bs" "bs < span h f"
        "\<forall>g\<in>set xs. b \<le> span h g \<longrightarrow> bs < span h g"
        "\<forall>g\<in>set ys. b \<le> span h g \<longrightarrow> bs \<le> span h g"
        by blast
      then have "f # F = (f # xs) @ bb # ys \<and> bs = span h bb \<and> b \<le> bs \<and> bs < bs0 \<and>
        (\<forall>g\<in>set (f # xs). b \<le> span h g \<longrightarrow> bs < span h g) \<and>
        (\<forall>g\<in>set ys. b \<le> span h g \<longrightarrow> bs \<le> span h g)"
        using True by simp
      then show ?thesis by blast
    qed
  next
    case False
    with Cons.prems have "best_fit_fold h b F (bb0, bs0) = (bb, bs)"
      by auto
    from Cons.IH [OF this] show ?thesis
    proof
      assume "(bb, bs) = (bb0, bs0) \<and> (\<forall>g\<in>set F. b \<le> span h g \<longrightarrow> bs0 \<le> span h g)"
      then show ?thesis using False by auto
    next
      assume "\<exists>xs ys. F = xs @ bb # ys \<and> bs = span h bb \<and> b \<le> bs \<and> bs < bs0 \<and>
        (\<forall>g\<in>set xs. b \<le> span h g \<longrightarrow> bs < span h g) \<and>
        (\<forall>g\<in>set ys. b \<le> span h g \<longrightarrow> bs \<le> span h g)"
      then obtain xs ys where x: "F = xs @ bb # ys" "bs = span h bb" "b \<le> bs" "bs < bs0"
        "\<forall>g\<in>set xs. b \<le> span h g \<longrightarrow> bs < span h g"
        "\<forall>g\<in>set ys. b \<le> span h g \<longrightarrow> bs \<le> span h g"
        by blast
      then have "f # F = (f # xs) @ bb # ys \<and> bs = span h bb \<and> b \<le> bs \<and> bs < bs0 \<and>
        (\<forall>g\<in>set (f # xs). b \<le> span h g \<longrightarrow> bs < span h g) \<and>
        (\<forall>g\<in>set ys. b \<le> span h g \<longrightarrow> bs \<le> span h g)"
        using False by auto
      then show ?thesis by blast
    qed
  qed
qed

lemma takeWhile_before: "f \<notin> set xs \<Longrightarrow> takeWhile (\<lambda>g. g \<noteq> f) (xs @ f # ys) = xs"
  by (induction xs) auto

lemma best_fit_fold_choice:
  assumes r: "best_fit_fold h b F (bb0, bs0) = (bb, bs)" and di: "distinct F"
    and sm: "\<forall>g\<in>set F. span h g < bs0"
  shows "if list_ex (\<lambda>g. b \<le> span h g) F
         then best_fit_choice h b F bb \<and> bs = span h bb \<and> bs < bs0
         else (bb, bs) = (bb0, bs0)"
proof -
  from best_fit_fold_cases [OF r] show ?thesis
  proof
    assume a: "(bb, bs) = (bb0, bs0) \<and> (\<forall>g\<in>set F. b \<le> span h g \<longrightarrow> bs0 \<le> span h g)"
    then have "\<not> list_ex (\<lambda>g. b \<le> span h g) F"
      using sm by (fastforce simp add: list_ex_iff not_less [symmetric])
    then show ?thesis using a by simp
  next
    assume "\<exists>xs ys. F = xs @ bb # ys \<and> bs = span h bb \<and> b \<le> bs \<and> bs < bs0 \<and>
        (\<forall>g\<in>set xs. b \<le> span h g \<longrightarrow> bs < span h g) \<and>
        (\<forall>g\<in>set ys. b \<le> span h g \<longrightarrow> bs \<le> span h g)"
    then obtain xs ys where x: "F = xs @ bb # ys" "bs = span h bb" "b \<le> bs" "bs < bs0"
        "\<forall>g\<in>set xs. b \<le> span h g \<longrightarrow> bs < span h g"
        "\<forall>g\<in>set ys. b \<le> span h g \<longrightarrow> bs \<le> span h g"
      by blast
    have nx: "bb \<notin> set xs"
      using di x(1) by simp
    have tw: "takeWhile (\<lambda>g. g \<noteq> bb) F = xs"
      using nx x(1) by (simp add: takeWhile_before)
    have ex: "list_ex (\<lambda>g. b \<le> span h g) F"
      using x(1,2,3) by (simp add: list_ex_iff)
    have "best_fit_choice h b F bb"
      unfolding best_fit_choice_def tw
      using x by (auto simp add: list_all_iff less_imp_le)
    then show ?thesis
      using ex x(2,4) by simp
  qed
qed

lemma umm_malloc_scan_chain:
  assumes "successively (flink h) (F @ [lf])" and "UMM_NFREE h lf = 0"
    and "0 \<notin> set (F @ [lf])" and "\<forall>f\<in>set F. f < blockno h f"
    and "unat cf = hd (F @ [lf])"
  shows "\<exists>cfe bse bb bs. umm_malloc_scan h blocks cf bsz0 bb0 bs0 = Some (cfe, bse, bb, bs) \<and>
           unat cfe = lf \<and>
           (unat bb, unat bs) = best_fit_fold h (unat blocks) F (unat bb0, unat bs0)"
  using assms
proof (induction F arbitrary: cf bsz0 bb0 bs0)
  case Nil
  then have "umm_malloc_scan h blocks cf bsz0 bb0 bs0 = Some (cf, bsz0, bb0, bs0)"
    by (subst umm_malloc_scan.simps) simp
  then show ?case
    using Nil by simp
next
  case (Cons f F)
  let ?g = "hd (F @ [lf])"
  let ?sz = "(UMM_NBLOCK h f AND 0x7FFF) - cf"
  have cf: "unat cf = f"
    using Cons.prems(5) by simp
  have fg: "flink h f ?g" and ch: "successively (flink h) (F @ [lf])"
    using Cons.prems(1) by (cases F; simp)+
  have g0: "?g \<noteq> 0"
    using Cons.prems(3) by (cases F) auto
  have ng: "unat (UMM_NFREE h f) = ?g"
    using fg by (simp add: flink_def)
  then have nz: "UMM_NFREE h f \<noteq> 0"
    using g0 by auto
  have "f < blockno h f"
    using Cons.prems(4) by simp
  then have sz: "unat ?sz = span h f"
    using cf by (simp add: span_def blockno_def unat_sub_u16)
  have cond: "(blocks \<le> ?sz \<and> ?sz < bs0) = (unat blocks \<le> span h f \<and> span h f < unat bs0)"
    using sz by (simp add: word_le_nat_alt word_less_nat_alt)
  have p3: "0 \<notin> set (F @ [lf])" and p4: "\<forall>f\<in>set F. f < blockno h f"
    using Cons.prems(3,4) by auto
  show ?case
  proof (cases "unat blocks \<le> span h f \<and> span h f < unat bs0")
    case True
    then have "blocks \<le> ?sz \<and> ?sz < bs0"
      using cond by blast
    then have step: "umm_malloc_scan h blocks cf bsz0 bb0 bs0 =
        umm_malloc_scan h blocks (UMM_NFREE h f) ?sz cf ?sz"
      using nz cf by (subst umm_malloc_scan.simps) (simp only: Let_def if_True if_False simp_thms)
    have fold: "best_fit_fold h (unat blocks) (f # F) (unat bb0, unat bs0) =
        best_fit_fold h (unat blocks) F (unat cf, unat ?sz)"
      using True cf sz by simp
    from Cons.IH [OF ch Cons.prems(2) p3 p4 ng, of ?sz cf ?sz]
    show ?thesis
      unfolding step fold .
  next
    case False
    then have "\<not> (blocks \<le> ?sz \<and> ?sz < bs0)"
      using cond by blast
    then have step: "umm_malloc_scan h blocks cf bsz0 bb0 bs0 =
        umm_malloc_scan h blocks (UMM_NFREE h f) ?sz bb0 bs0"
      using nz cf by (subst umm_malloc_scan.simps) (simp only: Let_def if_True if_False simp_thms)
    have fold: "best_fit_fold h (unat blocks) (f # F) (unat bb0, unat bs0) =
        best_fit_fold h (unat blocks) F (unat bb0, unat bs0)"
      using False by auto
    from Cons.IH [OF ch Cons.prems(2) p3 p4 ng, of ?sz bb0 bs0]
    show ?thesis
      unfolding step fold .
  qed
qed

lemma umm_heap_ok_next:
  assumes ok: "umm_heap_ok N h bs fl lf" and b: "b \<in> set bs"
  shows "b < blockno h b" and "blockno h b \<le> lf" and "blockno h b \<in> set (bs @ [lf])"
    and "span h b < 32767" and "0 < span h b"
proof -
  note d = umm_heap_okD [OF ok]
  note bd = umm_heap_ok_bounds [OF ok]
  from b obtain xs ys where bs: "bs = xs @ b # ys"
    by (auto dest: split_list)
  from d(4) bs obtain n Y where nY: "ys @ [lf] = n # Y" and bn: "plink h b n"
    by (rule plink_split_list)
  have n: "blockno h b = n" and lt: "b < n"
    using bn by (simp_all add: plink_def)
  have nin: "n \<in> set (ys @ [lf])"
    using nY by simp
  then show m: "blockno h b \<in> set (bs @ [lf])"
    using n bs by auto
  show "b < blockno h b"
    using n lt by simp
  show le: "blockno h b \<le> lf"
    using m bd(1) by auto
  show "span h b < 32767"
    using le bd(3) by (simp add: span_def)
  show "0 < span h b"
    using n lt by (simp add: span_def)
qed

lemma umm_malloc_scan_ok:
  assumes ok: "umm_heap_ok N h bs fl lf"
  shows "\<exists>cfe bse bb bsz.
     umm_malloc_scan h blocks (UMM_NFREE h 0) 0 (UMM_NFREE h 0) 0x7FFF = Some (cfe, bse, bb, bsz) \<and>
     unat cfe = lf \<and>
     (if list_ex (\<lambda>g. unat blocks \<le> span h g) fl
      then bsz \<noteq> 0x7FFF \<and> best_fit_choice h (unat blocks) fl (unat bb) \<and>
           unat bsz = span h (unat bb)
      else bsz = 0x7FFF)"
proof -
  note d = umm_heap_okD [OF ok]
  note bd = umm_heap_ok_bounds [OF ok]
  have ch: "successively (flink h) (fl @ [lf])" and f0: "flink h 0 (hd (fl @ [lf]))"
    using d(6) by (cases fl; simp)+
  have hd: "unat (UMM_NFREE h 0) = hd (fl @ [lf])"
    using f0 by (simp add: flink_def)
  have nz: "0 \<notin> set (fl @ [lf])"
    using bd(2,5) by simp
  have sp: "\<forall>f\<in>set fl. f < blockno h f"
    using umm_heap_ok_next(1) [OF ok] bd(7) by blast
  have sm: "\<forall>g\<in>set fl. span h g < unat (0x7FFF :: u16)"
    using umm_heap_ok_next(4) [OF ok] bd(7) by auto
  from umm_malloc_scan_chain [OF ch d(7) nz sp hd, of blocks 0 "UMM_NFREE h 0" "0x7FFF"]
  obtain cfe bse bb bsz where
    sc: "umm_malloc_scan h blocks (UMM_NFREE h 0) 0 (UMM_NFREE h 0) 0x7FFF = Some (cfe, bse, bb, bsz)"
    and cfe: "unat cfe = lf"
    and fo: "best_fit_fold h (unat blocks) fl (unat (UMM_NFREE h 0), unat (0x7FFF :: u16)) =
              (unat bb, unat bsz)"
    by auto
  note ch = best_fit_fold_choice [OF fo d(8) sm]
  have "if list_ex (\<lambda>g. unat blocks \<le> span h g) fl
      then bsz \<noteq> 0x7FFF \<and> best_fit_choice h (unat blocks) fl (unat bb) \<and>
           unat bsz = span h (unat bb)
      else bsz = 0x7FFF"
  proof (cases "list_ex (\<lambda>g. unat blocks \<le> span h g) fl")
    case True
    then have "best_fit_choice h (unat blocks) fl (unat bb)" "unat bsz = span h (unat bb)"
      "unat bsz < unat (0x7FFF :: u16)"
      using ch by simp_all
    then show ?thesis
      using True by auto
  next
    case False
    then have "unat bsz = unat (0x7FFF :: u16)"
      using ch by simp
    then have "bsz = 0x7FFF"
      by (simp only: word_unat_eq_iff)
    then show ?thesis
      using False by simp
  qed
  then show ?thesis
    using sc cfe by blast
qed


lemma umm_malloc_scan_fresh:
  assumes "umm_heap_fresh h"
  shows "umm_malloc_scan h blocks (UMM_NFREE h 0) 0 (UMM_NFREE h 0) 0x7FFF = Some (0, 0, 0, 0x7FFF)"
  using assms by (subst umm_malloc_scan.simps) (simp add: umm_heap_fresh_def zero_block_def)

text \<open>
  C1.  In a heap that satisfies the structural invariants, for a request of
  \<open>blocks\<close> blocks, the scan of umm\_malloc ends, and it ends at the last entry
  \<open>lf\<close> of the free list, having looked at every entry before it.  If some block
  of the free list has a span of at least \<open>blocks\<close>, the sentinel 0x7FFF has been
  replaced, the search continues with \<open>bestBlock\<close>, and \<open>bestBlock\<close> is the best
  fit: a block of the free list with the smallest span that is at least \<open>blocks\<close>,
  and the earliest in the free list among those; umm\_malloc then takes it from
  the existing blocks.  Otherwise the sentinel is unchanged and umm\_malloc goes on
  with the end-of-heap allocation at \<open>lf\<close>.
\<close>

theorem umm_malloc_search_best_fit:
  assumes "umm_state_ok UMM_NUMBLOCKS h bs fl lf"
  shows "\<exists>cf blockSize bestBlock bestSize.
     umm_malloc_scan h blocks (UMM_NFREE h 0) 0 (UMM_NFREE h 0) 0x7FFF =
       Some (cf, blockSize, bestBlock, bestSize) \<and>
     unat cf = lf \<and>
     (if list_ex (\<lambda>g. unat blocks \<le> span h g) fl
      then bestSize \<noteq> 0x7FFF \<and> best_fit_choice h (unat blocks) fl (unat bestBlock) \<and>
           unat bestSize = span h (unat bestBlock) \<and>
           umm_malloc_search h blocks = Some (bestBlock, bestSize) \<and>
           umm_malloc_take UMM_NUMBLOCKS h blocks bestBlock bestSize =
             (if bestSize = blocks
              then (umm_disconnect_from_free_list h bestBlock, UMM_DATA_addr (unat bestBlock))
              else (umm_make_new_block h bestBlock (bestSize - blocks) UMM_FREELIST_MASK,
                    UMM_DATA_addr (unat (bestBlock + (bestSize - blocks)))))
      else bestSize = 0x7FFF \<and> umm_malloc_search h blocks = Some (cf, blockSize) \<and>
           umm_malloc_take UMM_NUMBLOCKS h blocks cf blockSize =
             umm_malloc_end UMM_NUMBLOCKS h blocks cf)"
proof (cases "lf = 0")
  case True
  then have fr: "umm_heap_fresh h" and fl: "fl = []"
    using assms by (simp_all add: umm_state_ok_def)
  have nb: "UMM_NBLOCK h 0 = 0"
    using fr by (simp add: umm_heap_fresh_def zero_block_def)
  show ?thesis
    using True fl nb umm_malloc_scan_fresh [OF fr, of blocks]
    by (simp add: umm_malloc_search_def umm_malloc_take_def)
next
  case False
  then have ok: "umm_heap_ok UMM_NUMBLOCKS h bs fl lf"
    using assms by (simp add: umm_state_ok_def)
  note d = umm_heap_okD [OF ok]
  note bd = umm_heap_ok_bounds [OF ok]
  from umm_malloc_scan_ok [OF ok, of blocks]
  obtain cf blockSize bestBlock bestSize where
    sc: "umm_malloc_scan h blocks (UMM_NFREE h 0) 0 (UMM_NFREE h 0) 0x7FFF =
           Some (cf, blockSize, bestBlock, bestSize)"
    and cf: "unat cf = lf"
    and ch: "if list_ex (\<lambda>g. unat blocks \<le> span h g) fl
      then bestSize \<noteq> 0x7FFF \<and> best_fit_choice h (unat blocks) fl (unat bestBlock) \<and>
           unat bestSize = span h (unat bestBlock)
      else bestSize = 0x7FFF"
    by blast
  have "if list_ex (\<lambda>g. unat blocks \<le> span h g) fl
      then bestSize \<noteq> 0x7FFF \<and> best_fit_choice h (unat blocks) fl (unat bestBlock) \<and>
           unat bestSize = span h (unat bestBlock) \<and>
           umm_malloc_search h blocks = Some (bestBlock, bestSize) \<and>
           umm_malloc_take UMM_NUMBLOCKS h blocks bestBlock bestSize =
             (if bestSize = blocks
              then (umm_disconnect_from_free_list h bestBlock, UMM_DATA_addr (unat bestBlock))
              else (umm_make_new_block h bestBlock (bestSize - blocks) UMM_FREELIST_MASK,
                    UMM_DATA_addr (unat (bestBlock + (bestSize - blocks)))))
      else bestSize = 0x7FFF \<and> umm_malloc_search h blocks = Some (cf, blockSize) \<and>
           umm_malloc_take UMM_NUMBLOCKS h blocks cf blockSize =
             umm_malloc_end UMM_NUMBLOCKS h blocks cf"
  proof (cases "list_ex (\<lambda>g. unat blocks \<le> span h g) fl")
    case True
    then have a: "bestSize \<noteq> 0x7FFF" "best_fit_choice h (unat blocks) fl (unat bestBlock)"
      "unat bestSize = span h (unat bestBlock)"
      using ch by simp_all
    have "unat bestBlock \<in> set fl"
      using a(2) by (simp add: best_fit_choice_def)
    then have "unat bestBlock \<in> set bs"
      using bd(7) by blast
    then have "unat bestBlock < blockno h (unat bestBlock)"
      by (rule umm_heap_ok_next(1) [OF ok])
    then have nz: "UMM_NBLOCK h (unat bestBlock) AND 0x7FFF \<noteq> 0"
      by (auto simp add: blockno_def)
    show ?thesis
      using True a nz sc by (simp add: umm_malloc_search_def umm_malloc_take_def)
  next
    case False
    then have a: "bestSize = 0x7FFF"
      using ch by simp
    have "UMM_NBLOCK h (unat cf) AND 0x7FFF = 0"
      using d(5) cf by simp
    then show ?thesis
      using False a sc by (simp add: umm_malloc_search_def umm_malloc_take_def)
  qed
  then show ?thesis
    using sc cf by blast
qed

lemma sample_heap_ok: "umm_heap_ok 16 sample_heap [1, 3, 4, 5] [4, 1] 6"
  by (simp add: umm_heap_ok_def plink_def flink_def blockno_def is_free_def)

lemma sample_heap_span [simp]:
  "span sample_heap 4 = 1" "span sample_heap (Suc 0) = 2"
  by (simp_all add: span_def blockno_def)

text \<open>
  On the sample heap (free list 4, 1, 6 with spans 1 and 2) a request of one block
  is served from block 4, a request of two blocks from block 1, and a request of
  three blocks goes to the end of the heap at block 6.
\<close>

theorem umm_malloc_search_best_fit_witness:
  "umm_state_ok 16 sample_heap [1, 3, 4, 5] [4, 1] 6 \<and>
   umm_malloc_search sample_heap 1 = Some (4, 1) \<and>
   best_fit_choice sample_heap 1 [4, 1] 4 \<and>
   umm_malloc_search sample_heap 3 = Some (6, 2) \<and>
   \<not> list_ex (\<lambda>g. 3 \<le> span sample_heap g) [4, 1] \<and>
   umm_malloc_take 16 sample_heap 3 6 2 = umm_malloc_end 16 sample_heap 3 6"
proof -
  have ok: "umm_state_ok 16 sample_heap [1, 3, 4, 5] [4, 1] 6"
    using sample_heap_ok by (simp add: umm_state_ok_def)
  have s1: "umm_malloc_search sample_heap 1 = Some (4, 1)"
    by (simp add: umm_malloc_search_def umm_malloc_scan.simps)
  have s3: "umm_malloc_search sample_heap 3 = Some (6, 2)"
    by (simp add: umm_malloc_search_def umm_malloc_scan.simps word_le_nat_alt)
  have c1: "list_ex (\<lambda>g. unat (1 :: u16) \<le> span sample_heap g) [4, 1]"
    by simp
  have c3: "\<not> list_ex (\<lambda>g. unat (3 :: u16) \<le> span sample_heap g) [4, 1]"
    by simp
  from umm_malloc_search_best_fit [OF ok, of 1] c1 s1
  have "best_fit_choice sample_heap 1 [4, 1] 4"
    by auto
  moreover from umm_malloc_search_best_fit [OF ok, of 3] c3 s3
  have "umm_malloc_take 16 sample_heap 3 6 2 = umm_malloc_end 16 sample_heap 3 6"
    by auto
  ultimately show ?thesis
    using ok s1 s3 c3 by simp
qed

end
